theory Spec2Isabelle
  imports Main
begin

section \<open>Memory: element objects behind pointers\<close>

text \<open>
  The tables store pointers (\<^verbatim>\<open>char*\<close>, \<^verbatim>\<open>void*\<close>) to element objects. A pointer is an
  address; address 0 is \<^verbatim>\<open>NULL\<close>. The element objects live in a store that only grows:
  the object at address \<open>p > 0\<close> is cell \<open>p - 1\<close> of the list. An allocation appends a
  cell and returns its address, as \<^verbatim>\<open>strdup\<close> returns a block no live pointer refers to.
  Allocation is taken to succeed (the code never checks the result of \<^verbatim>\<open>strdup\<close>).
  Unsigned values are natural numbers; \<^verbatim>\<open>int\<close> and \<^verbatim>\<open>unsigned\<close> are taken as 32 bits
  wide, and the two places where an \<^verbatim>\<open>unsigned\<close> can wrap (\<^verbatim>\<open>count++\<close>, \<^verbatim>\<open>count--\<close>) are
  written out modulo \<open>2 ^ 32\<close>.
\<close>

type_synonym addr = nat

type_synonym 'a heap = "'a list"

definition NULL :: addr where
  "NULL = 0"

definition allocated :: "'a heap \<Rightarrow> addr \<Rightarrow> bool" where
  "allocated h p \<longleftrightarrow> 0 < p \<and> p \<le> length h"

definition deref :: "'a heap \<Rightarrow> addr \<Rightarrow> 'a" where
  "deref h p = h ! (p - 1)"

definition store :: "'a heap \<Rightarrow> addr \<Rightarrow> 'a \<Rightarrow> 'a heap" where
  "store h p v = h[p - 1 := v]"

definition alloc :: "'a heap \<Rightarrow> 'a \<Rightarrow> 'a heap \<times> addr" where
  "alloc h v = (h @ [v], Suc (length h))"

section \<open>Errors\<close>

text \<open>
  \<open>AssertionFailed\<close>: an \<^verbatim>\<open>assert\<close> of the source fails and the program aborts.
  \<open>DivisionByZero\<close>: \<^verbatim>\<open>% sp->size\<close> with \<^verbatim>\<open>size == 0\<close> (undefined behaviour in C).
  \<open>OutOfBounds\<close>: a write past the end of an array (undefined behaviour in C).
\<close>

datatype error = AssertionFailed | DivisionByZero | OutOfBounds

section \<open>The set structure\<close>

text \<open>
  \<^verbatim>\<open>typedef struct set { char** data; unsigned* flags; unsigned count; unsigned size; }
  stringTable\<close> in both string tables, and the same four fields followed by the function
  pointers \<^verbatim>\<open>compare\<close> and \<^verbatim>\<open>hash\<close> in \<^verbatim>\<open>genericTable\<close>. Flag 0 is empty, 1 is
  filled, 2 is deleted. The field \<^verbatim>\<open>size\<close> is named \<open>size_f\<close> here.
  \<^verbatim>\<open>malloc\<close> leaves the cells of \<^verbatim>\<open>data\<close> indeterminate; no function reads a cell whose
  flag is not 1, and the model fills them with \<open>NULL\<close>.
\<close>

record stringTable =
  data :: "addr list"
  flags :: "nat list"
  count :: nat
  size_f :: nat

record 'a genericTable = stringTable +
  compare :: "'a \<Rightarrow> 'a \<Rightarrow> int"
  hash :: "'a \<Rightarrow> nat"

section \<open>The probe shared by the two tables of part_000\<close>

text \<open>
  \<^verbatim>\<open>findElementIndex\<close> of the string table (part_000, lines 107-147) and of the generic
  table (part_000, lines 327-366) are the same text but for the comparison
  (\<^verbatim>\<open>strcmp(sp->data[index], elt) == 0\<close> against \<^verbatim>\<open>(*sp->compare)(sp->data[index], elt) == 0\<close>)
  and the hash. The comparison at a slot is the parameter \<open>eq\<close>, the hash value of the
  element is \<open>hv\<close>; \<^verbatim>\<open>home\<close> is the constant \<open>hv mod sz\<close>.

  The \<^verbatim>\<open>while\<close> loop (lines 129-143 and 348-362):
\<close>

function findElementIndex_while ::
  "(nat \<Rightarrow> bool) \<Rightarrow> nat list \<Rightarrow> nat \<Rightarrow> nat \<Rightarrow> nat \<Rightarrow> nat \<Rightarrow> nat \<times> bool" where
  "findElementIndex_while eq fl sz hv index firstDeleted =
     (if index < sz \<and> index \<noteq> hv mod sz then
        if fl ! index = 0 then (index, False)
        else if fl ! index = 1 \<and> eq index then (index, True)
        else findElementIndex_while eq fl sz hv ((index + 1) mod sz)
               (if fl ! index = 2 \<and> firstDeleted = sz then index else firstDeleted)
      else (firstDeleted, False))"
  by pat_completeness auto
termination
proof (relation "measure (\<lambda>(eq, fl, sz, hv, index, firstDeleted).
         if index \<le> hv mod sz then hv mod sz - index else sz + hv mod sz - index)")
  show "wf (measure (\<lambda>(eq, fl, sz, hv, index, firstDeleted).
         if index \<le> hv mod sz then hv mod sz - index else sz + hv mod sz - index))"
    by simp
next
  fix eq :: "nat \<Rightarrow> bool" and fl :: "nat list" and sz hv index firstDeleted :: nat
  assume a: "index < sz \<and> index \<noteq> hv mod sz"
  then have h: "hv mod sz < sz" by simp
  show "((eq, fl, sz, hv, (index + 1) mod sz,
           if fl ! index = 2 \<and> firstDeleted = sz then index else firstDeleted),
          (eq, fl, sz, hv, index, firstDeleted))
        \<in> measure (\<lambda>(eq, fl, sz, hv, index, firstDeleted).
             if index \<le> hv mod sz then hv mod sz - index else sz + hv mod sz - index)"
  proof (cases "index + 1 < sz")
    case True
    then have "(index + 1) mod sz = index + 1" by simp
    with a h show ?thesis by auto
  next
    case False
    with a have e: "index + 1 = sz" by simp
    then have z: "(index + 1) mod sz = 0" by simp
    from a h e have "hv mod sz < index" by linarith
    with z a show ?thesis by simp
  qed
qed

text \<open>The code between the assertions and the final return (lines 110-146 and 330-365).\<close>

definition findElementIndex_walk ::
  "(nat \<Rightarrow> bool) \<Rightarrow> nat list \<Rightarrow> nat \<Rightarrow> nat \<Rightarrow> nat \<times> bool" where
  "findElementIndex_walk eq fl sz hv =
     (let home = hv mod sz; index = home; firstDeleted = sz in
      if index < sz then
        if fl ! index = 0 then (index, False)
        else if fl ! index = 1 \<and> eq index then (index, True)
        else findElementIndex_while eq fl sz hv ((index + 1) mod sz)
               (if fl ! index = 2 \<and> firstDeleted = sz then index else firstDeleted)
      else findElementIndex_while eq fl sz hv index firstDeleted)"

section \<open>The generic table (part_000, lines 237-456)\<close>

text \<open>
  A pointer argument \<^verbatim>\<open>void* elt\<close> is \<open>None\<close> when it is \<^verbatim>\<open>NULL\<close> and \<open>Some e\<close> when it
  points to an object \<open>e\<close>; the functions only read through it. The table handle
  \<^verbatim>\<open>sp\<close> is the record itself, so \<^verbatim>\<open>assert(sp != NULL)\<close> has no branch. The out-parameter
  \<^verbatim>\<open>bool* found\<close> of \<^verbatim>\<open>findElementIndex\<close> is the second component of its result (every
  caller passes a non-null pointer).
\<close>

definition createSet ::
  "int \<Rightarrow> ('a \<Rightarrow> 'a \<Rightarrow> int) \<Rightarrow> ('a \<Rightarrow> nat) \<Rightarrow> error + 'a genericTable" where
  "createSet maxElts cmp hsh =
     (if maxElts \<ge> 0 then
        Inr \<lparr>data = replicate (nat maxElts) NULL, flags = replicate (nat maxElts) 0,
             count = 0, size_f = nat maxElts, compare = cmp, hash = hsh\<rparr>
      else Inl AssertionFailed)"

text \<open>\<^verbatim>\<open>return sp->count;\<close> converts \<^verbatim>\<open>unsigned\<close> to \<^verbatim>\<open>int\<close>.\<close>

definition numElements :: "'z stringTable_scheme \<Rightarrow> int" where
  "numElements sp = (if count sp < 2 ^ 31 then int (count sp) else int (count sp) - 2 ^ 32)"

definition findElementIndex ::
  "'a heap \<Rightarrow> 'a genericTable \<Rightarrow> 'a option \<Rightarrow> error + (nat \<times> bool)" where
  "findElementIndex h sp elt =
     (case elt of
        None \<Rightarrow> Inl AssertionFailed
      | Some e \<Rightarrow>
          if size_f sp = 0 then Inl DivisionByZero
          else Inr (findElementIndex_walk (\<lambda>index. compare sp (deref h (data sp ! index)) e = 0)
                      (flags sp) (size_f sp) (hash sp e)))"

text \<open>
  \<^verbatim>\<open>sp->data[index] = strdup(elt);\<close> copies the object as if it were a C string. What
  that yields for an object of the caller's type is not fixed by the code, so the copy
  is the parameter \<open>strdup\<close> (the identity for a C string). When the probe returns
  \<^verbatim>\<open>sp->size\<close> the write is past the end of the arrays.
\<close>

definition addElement ::
  "('a \<Rightarrow> 'a) \<Rightarrow> 'a heap \<Rightarrow> 'a genericTable \<Rightarrow> 'a option \<Rightarrow> error + ('a heap \<times> 'a genericTable)" where
  "addElement strdup h sp elt =
     (case elt of
        None \<Rightarrow> Inl AssertionFailed
      | Some e \<Rightarrow>
          if \<not> count sp < size_f sp then Inl AssertionFailed
          else
            (case findElementIndex h sp elt of
               Inl err \<Rightarrow> Inl err
             | Inr (index, alreadyExists) \<Rightarrow>
                 if alreadyExists then Inr (h, sp)
                 else if index < size_f sp then
                   (let (h', p) = alloc h (strdup e) in
                    Inr (h', sp\<lparr>data := (data sp)[index := p],
                                 flags := (flags sp)[index := 1],
                                 count := (count sp + 1) mod 2 ^ 32\<rparr>))
                 else Inl OutOfBounds))"

definition removeElement ::
  "'a heap \<Rightarrow> 'a genericTable \<Rightarrow> 'a option \<Rightarrow> error + 'a genericTable" where
  "removeElement h sp elt =
     (case elt of
        None \<Rightarrow> Inr sp
      | Some e \<Rightarrow>
          (case findElementIndex h sp elt of
             Inl err \<Rightarrow> Inl err
           | Inr (index, found) \<Rightarrow>
               if found = False then Inr sp
               else Inr (sp\<lparr>flags := (flags sp)[index := 2],
                            count := (count sp + 2 ^ 32 - 1) mod 2 ^ 32\<rparr>)))"

definition findElement :: "'a heap \<Rightarrow> 'a genericTable \<Rightarrow> 'a option \<Rightarrow> error + addr" where
  "findElement h sp elt =
     (case elt of
        None \<Rightarrow> Inr NULL
      | Some e \<Rightarrow>
          (case findElementIndex h sp elt of
             Inl err \<Rightarrow> Inl err
           | Inr (a, found) \<Rightarrow> if found = False then Inr NULL else Inr (data sp ! a)))"

text \<open>
  \<^verbatim>\<open>getElements\<close>: the array \<^verbatim>\<open>toReturn\<close> has \<^verbatim>\<open>sp->count\<close> cells, indeterminate (\<open>None\<close>)
  until written; a write at \<^verbatim>\<open>whereToAdd\<close> past its end is out of bounds. The generic
  table stores \<^verbatim>\<open>sp->data[i]\<close> itself in the array.
\<close>

function getElements_for ::
  "'a genericTable \<Rightarrow> nat \<Rightarrow> nat \<Rightarrow> addr option list \<Rightarrow> error + addr option list" where
  "getElements_for sp i whereToAdd toReturn =
     (if i < size_f sp then
        if flags sp ! i = 1 then
          if whereToAdd < length toReturn then
            getElements_for sp (i + 1) (whereToAdd + 1) (toReturn[whereToAdd := Some (data sp ! i)])
          else Inl OutOfBounds
        else getElements_for sp (i + 1) whereToAdd toReturn
      else Inr toReturn)"
  by pat_completeness auto
termination
  by (relation "measure (\<lambda>(sp, i, whereToAdd, toReturn). size_f sp - i)") auto

definition getElements :: "'a genericTable \<Rightarrow> error + addr option list" where
  "getElements sp = getElements_for sp 0 0 (replicate (count sp) None)"

section \<open>The string table (part_000, lines 1-237)\<close>

text \<open>
  A C string is the list of its characters before the terminating NUL. \<^verbatim>\<open>strhash\<close>
  adds each \<^verbatim>\<open>char\<close> to \<^verbatim>\<open>31 * hash\<close> in \<^verbatim>\<open>unsigned\<close> arithmetic. Plain \<^verbatim>\<open>char\<close> is signed
  (x86-64): a byte below 128 is added as it is, a byte \<open>b\<close> from 128 on is the negative
  value \<open>b - 256\<close>, which the conversion to \<^verbatim>\<open>unsigned\<close> turns into \<open>2 ^ 32 - 256 + b\<close>. Of
  \<^verbatim>\<open>strcmp\<close> the C standard fixes the sign of the result only. \<^verbatim>\<open>strdup\<close> of a C string
  is a new block with the same characters.
\<close>

definition strhash :: "string \<Rightarrow> nat" where
  "strhash s =
     foldl (\<lambda>hash c. (31 * hash +
                       (if (of_char c :: nat) < 128 then of_char c else 2 ^ 32 - 256 + of_char c))
                     mod 2 ^ 32) 0 s"

fun strcmp :: "string \<Rightarrow> string \<Rightarrow> int" where
  "strcmp [] [] = 0"
| "strcmp [] (b # bs) = - 1"
| "strcmp (a # as) [] = 1"
| "strcmp (a # as) (b # bs) =
     (if a = b then strcmp as bs
      else if (of_char a :: nat) < of_char b then - 1 else 1)"

definition createSet_str :: "int \<Rightarrow> error + stringTable" where
  "createSet_str maxElts =
     (if maxElts \<ge> 0 then
        Inr \<lparr>data = replicate (nat maxElts) NULL, flags = replicate (nat maxElts) 0,
             count = 0, size_f = nat maxElts\<rparr>
      else Inl AssertionFailed)"

definition findElementIndex_str ::
  "string heap \<Rightarrow> stringTable \<Rightarrow> string option \<Rightarrow> error + (nat \<times> bool)" where
  "findElementIndex_str h sp elt =
     (case elt of
        None \<Rightarrow> Inl AssertionFailed
      | Some e \<Rightarrow>
          if size_f sp = 0 then Inl DivisionByZero
          else Inr (findElementIndex_walk (\<lambda>index. strcmp (deref h (data sp ! index)) e = 0)
                      (flags sp) (size_f sp) (strhash e)))"

definition addElement_str ::
  "string heap \<Rightarrow> stringTable \<Rightarrow> string option \<Rightarrow> error + (string heap \<times> stringTable)" where
  "addElement_str h sp elt =
     (case elt of
        None \<Rightarrow> Inl AssertionFailed
      | Some e \<Rightarrow>
          if \<not> count sp < size_f sp then Inl AssertionFailed
          else
            (case findElementIndex_str h sp elt of
               Inl err \<Rightarrow> Inl err
             | Inr (index, alreadyExists) \<Rightarrow>
                 if alreadyExists then Inr (h, sp)
                 else if index < size_f sp then
                   (let (h', p) = alloc h e in
                    Inr (h', sp\<lparr>data := (data sp)[index := p],
                                 flags := (flags sp)[index := 1],
                                 count := (count sp + 1) mod 2 ^ 32\<rparr>))
                 else Inl OutOfBounds))"

definition removeElement_str ::
  "string heap \<Rightarrow> stringTable \<Rightarrow> string option \<Rightarrow> error + stringTable" where
  "removeElement_str h sp elt =
     (case elt of
        None \<Rightarrow> Inr sp
      | Some e \<Rightarrow>
          (case findElementIndex_str h sp elt of
             Inl err \<Rightarrow> Inl err
           | Inr (index, found) \<Rightarrow>
               if found = False then Inr sp
               else Inr (sp\<lparr>flags := (flags sp)[index := 2],
                            count := (count sp + 2 ^ 32 - 1) mod 2 ^ 32\<rparr>)))"

text \<open>
  \<^verbatim>\<open>getElements\<close> of the string table (part_000, lines 224-237; the same text is
  src/generic/table.c, lines 187-200) stores \<^verbatim>\<open>strdup(sp->data[i])\<close>: each entry is a
  new block.
\<close>

function getElements_str_for ::
  "string heap \<Rightarrow> stringTable \<Rightarrow> nat \<Rightarrow> nat \<Rightarrow> addr option list
     \<Rightarrow> error + (string heap \<times> addr option list)" where
  "getElements_str_for h sp i whereToAdd toReturn =
     (if i < size_f sp then
        if flags sp ! i = 1 then
          (let (h', p) = alloc h (deref h (data sp ! i)) in
           if whereToAdd < length toReturn then
             getElements_str_for h' sp (i + 1) (whereToAdd + 1) (toReturn[whereToAdd := Some p])
           else Inl OutOfBounds)
        else getElements_str_for h sp (i + 1) whereToAdd toReturn
      else Inr (h, toReturn))"
  by pat_completeness auto
termination
  by (relation "measure (\<lambda>(h, sp, i, whereToAdd, toReturn). size_f sp - i)") auto

definition getElements_str ::
  "string heap \<Rightarrow> stringTable \<Rightarrow> error + (string heap \<times> addr option list)" where
  "getElements_str h sp = getElements_str_for h sp 0 0 (replicate (count sp) None)"

section \<open>The table of src/generic/table.c\<close>

text \<open>
  The file has the structure and the string functions of the string table, but its
  probe advances with \<^verbatim>\<open>index++\<close> under \<^verbatim>\<open>while (index < sp->size)\<close> (lines 85-108) and its
  \<^verbatim>\<open>addElement\<close> (lines 118-128) does not write \<^verbatim>\<open>sp->flags[index]\<close>. Its functions carry
  the suffix \<open>_nowrap\<close>.
\<close>

text \<open>
  \<^verbatim>\<open>createSet\<close> of src/generic/table.c (lines 32-45) has no assertion on \<^verbatim>\<open>maxElts\<close>; with a
  negative \<^verbatim>\<open>maxElts\<close> the requested block is larger than any \<^verbatim>\<open>malloc\<close> grants and
  \<^verbatim>\<open>assert(a->data != NULL)\<close> fails.
\<close>

definition createSet_nowrap :: "int \<Rightarrow> error + stringTable" where
  "createSet_nowrap maxElts =
     (if maxElts \<ge> 0 then
        Inr \<lparr>data = replicate (nat maxElts) NULL, flags = replicate (nat maxElts) 0,
             count = 0, size_f = nat maxElts\<rparr>
      else Inl AssertionFailed)"

function findElementIndex_while_nowrap ::
  "(nat \<Rightarrow> bool) \<Rightarrow> nat list \<Rightarrow> nat \<Rightarrow> nat \<Rightarrow> nat \<Rightarrow> nat \<times> bool" where
  "findElementIndex_while_nowrap eq fl sz index firstDeleted =
     (if index < sz then
        if fl ! index = 0 then (index, False)
        else if fl ! index = 1 \<and> eq index then (index, True)
        else findElementIndex_while_nowrap eq fl sz (index + 1)
               (if fl ! index = 2 \<and> firstDeleted = sz then index else firstDeleted)
      else (firstDeleted, False))"
  by pat_completeness auto
termination
  by (relation "measure (\<lambda>(eq, fl, sz, index, firstDeleted). sz - index)") auto

definition findElementIndex_nowrap ::
  "string heap \<Rightarrow> stringTable \<Rightarrow> string option \<Rightarrow> error + (nat \<times> bool)" where
  "findElementIndex_nowrap h sp elt =
     (case elt of
        None \<Rightarrow> Inl AssertionFailed
      | Some e \<Rightarrow>
          if size_f sp = 0 then Inl DivisionByZero
          else
            (let index = strhash e mod size_f sp; firstDeleted = size_f sp in
             Inr (findElementIndex_while_nowrap (\<lambda>index. strcmp (deref h (data sp ! index)) e = 0)
                    (flags sp) (size_f sp) index firstDeleted)))"

definition addElement_nowrap ::
  "string heap \<Rightarrow> stringTable \<Rightarrow> string option \<Rightarrow> error + (string heap \<times> stringTable)" where
  "addElement_nowrap h sp elt =
     (case elt of
        None \<Rightarrow> Inl AssertionFailed
      | Some e \<Rightarrow>
          if \<not> count sp < size_f sp then Inl AssertionFailed
          else
            (case findElementIndex_nowrap h sp elt of
               Inl err \<Rightarrow> Inl err
             | Inr (index, alreadyExists) \<Rightarrow>
                 if alreadyExists then Inr (h, sp)
                 else if index < size_f sp then
                   (let (h', p) = alloc h e in
                    Inr (h', sp\<lparr>data := (data sp)[index := p],
                                 count := (count sp + 1) mod 2 ^ 32\<rparr>))
                 else Inl OutOfBounds))"

section \<open>Invariants and the walk as a sequence of slots\<close>

text \<open>The number of slots whose flag is 1 (filled).\<close>

definition occupied :: "nat list \<Rightarrow> nat" where
  "occupied fl = length (filter (\<lambda>f. f = 1) fl)"

text \<open>
  What \<^verbatim>\<open>createSet\<close> establishes and the operations keep: both arrays have \<^verbatim>\<open>size\<close>
  cells, \<^verbatim>\<open>size\<close> came from a non-negative \<^verbatim>\<open>int\<close>, every flag is 0, 1 or 2, and a
  filled slot holds the address of an allocated object.
\<close>

definition wellformed :: "'a heap \<Rightarrow> 'z stringTable_scheme \<Rightarrow> bool" where
  "wellformed h sp \<longleftrightarrow>
     length (data sp) = size_f sp \<and> length (flags sp) = size_f sp \<and> size_f sp < 2 ^ 31 \<and>
     list_all (\<lambda>f. f \<le> 2) (flags sp) \<and>
     list_all (\<lambda>(f, p). if f = 1 then allocated h p else True) (zip (flags sp) (data sp))"

definition counted :: "'z stringTable_scheme \<Rightarrow> bool" where
  "counted sp \<longleftrightarrow> count sp = occupied (flags sp)"

text \<open>
  The spec's walk: "starting at home, advancing by (index + 1) mod capacity, visiting at
  most capacity slots once" is the sequence \<open>probe_seq\<close>. \<open>probe_scan\<close> runs the body of
  the source's loop over a given sequence of slots.
\<close>

definition probe_seq :: "nat \<Rightarrow> nat \<Rightarrow> nat list" where
  "probe_seq sz home = map (\<lambda>k. (home + k) mod sz) [0..<sz]"

fun probe_scan :: "(nat \<Rightarrow> bool) \<Rightarrow> nat list \<Rightarrow> nat \<Rightarrow> nat list \<Rightarrow> nat \<Rightarrow> nat \<times> bool" where
  "probe_scan eq fl sz [] firstDeleted = (firstDeleted, False)"
| "probe_scan eq fl sz (index # rest) firstDeleted =
     (if fl ! index = 0 then (index, False)
      else if fl ! index = 1 \<and> eq index then (index, True)
      else probe_scan eq fl sz rest
             (if fl ! index = 2 \<and> firstDeleted = sz then index else firstDeleted))"

text \<open>A slot at which the loop body returns: empty, or filled with an equal element.\<close>

declare findElementIndex_while.simps [simp del]
declare findElementIndex_while_nowrap.simps [simp del]
declare getElements_for.simps [simp del]
declare getElements_str_for.simps [simp del]

definition stops :: "(nat \<Rightarrow> bool) \<Rightarrow> nat list \<Rightarrow> nat \<Rightarrow> bool" where
  "stops eq fl index \<longleftrightarrow> fl ! index = 0 \<or> (fl ! index = 1 \<and> eq index)"

section \<open>Concrete tables\<close>

text \<open>
  The scenario of the spec: elements are unsigned integers, the comparison returns 0 for
  equal integers, the hash is the identity modulo 4, the copy keeps the value, and the
  capacity is 4. \<open>scen0\<close> is the table after \<^verbatim>\<open>createSet\<close>, \<open>scen1\<close>, \<open>scen2\<close>, \<open>scen3\<close>
  after adding 1, 5 and 2, \<open>scen4\<close> after removing 5, \<open>scen5\<close> after adding 9; \<open>heap1\<close>,
  \<open>heap2\<close>, \<open>heap3\<close>, \<open>heap5\<close> are the stores of the copies after each addition.
\<close>

definition cmp_nat :: "nat \<Rightarrow> nat \<Rightarrow> int" where
  "cmp_nat a b = (if a = b then 0 else 1)"

definition hash_mod4 :: "nat \<Rightarrow> nat" where
  "hash_mod4 x = x mod 4"

definition copy_nat :: "nat \<Rightarrow> nat" where
  "copy_nat x = x"

definition scen0 :: "nat genericTable" where
  "scen0 = \<lparr>data = [0, 0, 0, 0], flags = [0, 0, 0, 0], count = 0, size_f = 4,
            compare = cmp_nat, hash = hash_mod4\<rparr>"

definition scen1 :: "nat genericTable" where
  "scen1 = \<lparr>data = [0, 1, 0, 0], flags = [0, 1, 0, 0], count = 1, size_f = 4,
            compare = cmp_nat, hash = hash_mod4\<rparr>"

definition scen2 :: "nat genericTable" where
  "scen2 = \<lparr>data = [0, 1, 2, 0], flags = [0, 1, 1, 0], count = 2, size_f = 4,
            compare = cmp_nat, hash = hash_mod4\<rparr>"

definition scen3 :: "nat genericTable" where
  "scen3 = \<lparr>data = [0, 1, 2, 3], flags = [0, 1, 1, 1], count = 3, size_f = 4,
            compare = cmp_nat, hash = hash_mod4\<rparr>"

definition scen4 :: "nat genericTable" where
  "scen4 = \<lparr>data = [0, 1, 2, 3], flags = [0, 1, 2, 1], count = 2, size_f = 4,
            compare = cmp_nat, hash = hash_mod4\<rparr>"

definition scen5 :: "nat genericTable" where
  "scen5 = \<lparr>data = [4, 1, 2, 3], flags = [1, 1, 2, 1], count = 3, size_f = 4,
            compare = cmp_nat, hash = hash_mod4\<rparr>"

definition heap1 :: "nat heap" where
  "heap1 = [1]"

definition heap2 :: "nat heap" where
  "heap2 = [1, 5]"

definition heap3 :: "nat heap" where
  "heap3 = [1, 5, 2]"

definition heap5 :: "nat heap" where
  "heap5 = [1, 5, 2, 9]"

text \<open>
  String tables of capacity 2: \<open>str0\<close> as created, \<open>str1\<close> after the string table of
  part_000 has added \<^verbatim>\<open>"a"\<close> (hash 97, home slot 1).
\<close>

definition str0 :: stringTable where
  "str0 = \<lparr>data = [0, 0], flags = [0, 0], count = 0, size_f = 2\<rparr>"

definition str1 :: stringTable where
  "str1 = \<lparr>data = [0, 1], flags = [0, 1], count = 1, size_f = 2\<rparr>"

text \<open>
  Generic tables of capacity 2 with the same comparison and hash: \<open>pair0\<close> as created,
  \<open>pair1\<close> after adding 0 (slot 0), \<open>pair2\<close> after removing 0 (slot 0 is a tombstone),
  \<open>pair3\<close> after adding 1 (slot 1).
\<close>

definition pair0 :: "nat genericTable" where
  "pair0 = \<lparr>data = [0, 0], flags = [0, 0], count = 0, size_f = 2,
            compare = cmp_nat, hash = hash_mod4\<rparr>"

definition pair1 :: "nat genericTable" where
  "pair1 = \<lparr>data = [1, 0], flags = [1, 0], count = 1, size_f = 2,
            compare = cmp_nat, hash = hash_mod4\<rparr>"

definition pair2 :: "nat genericTable" where
  "pair2 = \<lparr>data = [1, 0], flags = [2, 0], count = 0, size_f = 2,
            compare = cmp_nat, hash = hash_mod4\<rparr>"

definition pair3 :: "nat genericTable" where
  "pair3 = \<lparr>data = [1, 2], flags = [2, 1], count = 1, size_f = 2,
            compare = cmp_nat, hash = hash_mod4\<rparr>"

text \<open>A string table of capacity 2 whose slot 0 is a tombstone (it held \<^verbatim>\<open>"b"\<close>).\<close>

definition str2 :: stringTable where
  "str2 = \<lparr>data = [1, 0], flags = [2, 0], count = 0, size_f = 2\<rparr>"

text \<open>The generic table of capacity 0, as \<^verbatim>\<open>createSet(0, ...)\<close> returns it.\<close>

definition none0 :: "nat genericTable" where
  "none0 = \<lparr>data = [], flags = [], count = 0, size_f = 0,
            compare = cmp_nat, hash = hash_mod4\<rparr>"

text \<open>
  The tables that \<^verbatim>\<open>addElement\<close> of src/generic/table.c makes of \<open>str0\<close>: \<open>nowrap1\<close> after
  adding \<^verbatim>\<open>"a"\<close>, \<open>nowrap2\<close> after adding \<^verbatim>\<open>"a"\<close> again.
\<close>

definition nowrap1 :: stringTable where
  "nowrap1 = \<lparr>data = [0, 1], flags = [0, 0], count = 1, size_f = 2\<rparr>"

definition nowrap2 :: stringTable where
  "nowrap2 = \<lparr>data = [0, 2], flags = [0, 0], count = 2, size_f = 2\<rparr>"

section \<open>Calls on the generic table as state transformers\<close>

text \<open>
  A call of one of the functions of the generic table starts in a state (the store of
  element objects and the set structure) and, when it returns, yields a result and the
  state it leaves. \<^verbatim>\<open>numElements\<close> (lines 310-313), \<^verbatim>\<open>findElement\<close> (lines 422-431) and
  \<^verbatim>\<open>getElements\<close> (lines 443-456) assign only to their local variables and to the new array
  \<^verbatim>\<open>toReturn\<close>; \<^verbatim>\<open>removeElement\<close> assigns to \<^verbatim>\<open>sp->flags[index]\<close> and \<^verbatim>\<open>sp->count\<close>;
  \<^verbatim>\<open>addElement\<close> also allocates the copy and assigns to \<^verbatim>\<open>sp->data[index]\<close>.
\<close>

datatype 'a call =
  NumElements
| AddElement "'a option"
| RemoveElement "'a option"
| FindElement "'a option"
| GetElements

datatype outcome = Number int | Pointer addr | Pointers "addr option list" | Done

definition run ::
  "('a \<Rightarrow> 'a) \<Rightarrow> 'a heap \<times> 'a genericTable \<Rightarrow> 'a call
     \<Rightarrow> error + (outcome \<times> 'a heap \<times> 'a genericTable)" where
  "run strdup st c =
     (case st of (h, sp) \<Rightarrow>
        (case c of
           NumElements \<Rightarrow> Inr (Number (numElements sp), h, sp)
         | AddElement elt \<Rightarrow>
             (case addElement strdup h sp elt of
                Inl err \<Rightarrow> Inl err
              | Inr (h', sp') \<Rightarrow> Inr (Done, h', sp'))
         | RemoveElement elt \<Rightarrow>
             (case removeElement h sp elt of
                Inl err \<Rightarrow> Inl err
              | Inr sp' \<Rightarrow> Inr (Done, h, sp'))
         | FindElement elt \<Rightarrow>
             (case findElement h sp elt of
                Inl err \<Rightarrow> Inl err
              | Inr p \<Rightarrow> Inr (Pointer p, h, sp))
         | GetElements \<Rightarrow>
             (case getElements sp of
                Inl err \<Rightarrow> Inl err
              | Inr ps \<Rightarrow> Inr (Pointers ps, h, sp))))"

text \<open>The calls of \<^verbatim>\<open>numElements\<close>, \<^verbatim>\<open>findElement\<close> and \<^verbatim>\<open>getElements\<close>.\<close>

fun reads :: "'a call \<Rightarrow> bool" where
  "reads NumElements = True"
| "reads (FindElement elt) = True"
| "reads GetElements = True"
| "reads (AddElement elt) = False"
| "reads (RemoveElement elt) = False"

section \<open>The states a program can reach, and what the callbacks must satisfy\<close>

text \<open>
  The states of the generic table that calls of \<^verbatim>\<open>createSet\<close>, \<^verbatim>\<open>addElement\<close> and
  \<^verbatim>\<open>removeElement\<close> produce; between the calls the program may allocate objects of its own.
\<close>

inductive reachable ::
  "('a \<Rightarrow> 'a) \<Rightarrow> ('a \<Rightarrow> 'a \<Rightarrow> int) \<Rightarrow> ('a \<Rightarrow> nat) \<Rightarrow> 'a heap \<times> 'a genericTable \<Rightarrow> bool"
  for strdup :: "'a \<Rightarrow> 'a" and cmp :: "'a \<Rightarrow> 'a \<Rightarrow> int" and hsh :: "'a \<Rightarrow> nat" where
  created: "createSet maxElts cmp hsh = Inr sp \<Longrightarrow> maxElts < 2 ^ 31 \<Longrightarrow>
              reachable strdup cmp hsh (h, sp)"
| added: "reachable strdup cmp hsh (h, sp) \<Longrightarrow> addElement strdup h sp elt = Inr (h', sp') \<Longrightarrow>
            reachable strdup cmp hsh (h', sp')"
| removed: "reachable strdup cmp hsh (h, sp) \<Longrightarrow> removeElement h sp elt = Inr sp' \<Longrightarrow>
              reachable strdup cmp hsh (h, sp')"
| grown: "reachable strdup cmp hsh (h, sp) \<Longrightarrow> reachable strdup cmp hsh (h @ ys, sp)"

text \<open>
  The spec's conditions on the callbacks: the comparison is an equivalence (it returns 0
  for equal elements), equal elements hash equally, and the stored copy of an element is
  equal to it.
\<close>

definition consistent :: "('a \<Rightarrow> 'a) \<Rightarrow> ('a \<Rightarrow> 'a \<Rightarrow> int) \<Rightarrow> ('a \<Rightarrow> nat) \<Rightarrow> bool" where
  "consistent strdup cmp hsh \<longleftrightarrow>
     (\<forall>x. cmp (strdup x) x = 0) \<and>
     (\<forall>x y. cmp x y = 0 \<longrightarrow> cmp y x = 0) \<and>
     (\<forall>x y z. cmp x y = 0 \<and> cmp y z = 0 \<longrightarrow> cmp x z = 0) \<and>
     (\<forall>x y. cmp x y = 0 \<longrightarrow> hsh x = hsh y)"

text \<open>No two filled slots hold elements that compare equal.\<close>

definition no_duplicates :: "'a heap \<Rightarrow> 'a genericTable \<Rightarrow> bool" where
  "no_duplicates h sp \<longleftrightarrow>
     (\<forall>i<size_f sp. \<forall>j<size_f sp. i \<noteq> j \<and> flags sp ! i = 1 \<and> flags sp ! j = 1 \<longrightarrow>
        compare sp (deref h (data sp ! i)) (deref h (data sp ! j)) \<noteq> 0)"

text \<open>No slot on the walk from the home slot of a stored element to its slot is empty.\<close>

definition chained :: "'a heap \<Rightarrow> 'a genericTable \<Rightarrow> bool" where
  "chained h sp \<longleftrightarrow>
     (\<forall>i<size_f sp. flags sp ! i = 1 \<longrightarrow>
        (\<forall>k<size_f sp.
           probe_seq (size_f sp) (hash sp (deref h (data sp ! i)) mod size_f sp) ! k = i \<longrightarrow>
           (\<forall>j<k. flags sp !
                     (probe_seq (size_f sp) (hash sp (deref h (data sp ! i)) mod size_f sp) ! j)
                   \<noteq> 0)))"

section \<open>The slots a probe inspects\<close>





text \<open>For the probe of src/generic/table.c (the \<^verbatim>\<open>while\<close> loop with \<^verbatim>\<open>index++\<close>):\<close>

function findElementIndex_while_nowrap_visits ::
  "(nat \<Rightarrow> bool) \<Rightarrow> nat list \<Rightarrow> nat \<Rightarrow> nat \<Rightarrow> nat list" where
  "findElementIndex_while_nowrap_visits eq fl sz index =
     (if index < sz then
        if fl ! index = 0 then [index]
        else if fl ! index = 1 \<and> eq index then [index]
        else index # findElementIndex_while_nowrap_visits eq fl sz (index + 1)
      else [])"
  by pat_completeness auto
termination
  by (relation "measure (\<lambda>(eq, fl, sz, index). sz - index)") auto


declare findElementIndex_while_nowrap_visits.simps [simp del]

text \<open>The slots that the loop body inspects when it is run over a sequence of slots.\<close>

fun scan_visits :: "(nat \<Rightarrow> bool) \<Rightarrow> nat list \<Rightarrow> nat list \<Rightarrow> nat list" where
  "scan_visits eq fl [] = []"
| "scan_visits eq fl (index # rest) =
     (if fl ! index = 0 then [index]
      else if fl ! index = 1 \<and> eq index then [index]
      else index # scan_visits eq fl rest)"

section \<open>The states of the table of src/generic/table.c\<close>



section \<open>The copy of an element that is not a C string\<close>

text \<open>
  \<^verbatim>\<open>strdup\<close> applied to a pointer to an \<^verbatim>\<open>unsigned\<close> (4 bytes, least significant first)
  copies the bytes before the first zero byte and appends the terminator. Read back as
  an \<^verbatim>\<open>unsigned\<close>, the block gives the copied low bytes; the bytes after the terminator
  are taken as zero. When none of the four bytes is zero the first four bytes of the
  copy are those of the object.
\<close>

definition strdup_unsigned :: "nat \<Rightarrow> nat" where
  "strdup_unsigned x =
     (if x mod 256 = 0 then 0
      else if x div 256 mod 256 = 0 then x mod 256
      else if x div 65536 mod 256 = 0 then x mod 65536
      else if x div 16777216 mod 256 = 0 then x mod 16777216
      else x)"

text \<open>The scenario table \<open>scen0\<close> after \<^verbatim>\<open>addElement\<close> with the element 256 and this copy.\<close>

definition trunc1 :: "nat genericTable" where
  "trunc1 = \<lparr>data = [1, 0, 0, 0], flags = [1, 0, 0, 0], count = 1, size_f = 4,
             compare = cmp_nat, hash = hash_mod4\<rparr>"

section \<open>The probe of part_000 walks the probe sequence\<close>

lemma mod_shift_neq:
  fixes H j sz :: nat
  assumes "H < sz" "0 < j" "j < sz"
  shows "(H + j) mod sz \<noteq> H"
proof (cases "H + j < sz")
  case True
  then show ?thesis using assms by simp
next
  case False
  then have "(H + j) mod sz = H + j - sz"
    using assms by (simp add: mod_if)
  then show ?thesis using assms False by simp
qed

lemma while_scan:
  assumes "0 < sz"
  shows "1 \<le> j \<Longrightarrow> j \<le> sz \<Longrightarrow>
    findElementIndex_while eq fl sz hv ((hv mod sz + j) mod sz) fd =
      probe_scan eq fl sz (map (\<lambda>k. (hv mod sz + k) mod sz) [j..<sz]) fd"
proof (induction "sz - j" arbitrary: j fd)
  case 0
  then have "j = sz" by simp
  then show ?case using assms
    by (subst findElementIndex_while.simps) simp
next
  case (Suc n)
  then have jlt: "j < sz" by simp
  have H: "hv mod sz < sz" using assms by simp
  have ne: "(hv mod sz + j) mod sz \<noteq> hv mod sz"
    using mod_shift_neq [OF H] Suc.prems jlt by simp
  have lt: "(hv mod sz + j) mod sz < sz" using assms by simp
  have nxt: "((hv mod sz + j) mod sz + 1) mod sz = (hv mod sz + Suc j) mod sz"
    by (simp add: mod_Suc_eq)
  have up: "[j..<sz] = j # [Suc j..<sz]" using jlt by (simp add: upt_conv_Cons)
  have ih: "\<And>fd'. findElementIndex_while eq fl sz hv ((hv mod sz + Suc j) mod sz) fd' =
      probe_scan eq fl sz (map (\<lambda>k. (hv mod sz + k) mod sz) [Suc j..<sz]) fd'"
    using Suc.hyps(1) [of "Suc j"] Suc.hyps(2) jlt by simp
  show ?case
    apply (subst findElementIndex_while.simps)
    apply (simp only: up list.map probe_scan.simps nxt ih)
    using ne lt apply simp
    done
qed

lemma walk_scan:
  assumes "0 < sz"
  shows "findElementIndex_walk eq fl sz hv = probe_scan eq fl sz (probe_seq sz (hv mod sz)) sz"
proof -
  have up: "[0..<sz] = 0 # [1..<sz]" using assms by (simp add: upt_conv_Cons)
  have w: "\<And>fd. findElementIndex_while eq fl sz hv ((hv mod sz + 1) mod sz) fd =
      probe_scan eq fl sz (map (\<lambda>k. (hv mod sz + k) mod sz) [1..<sz]) fd"
    using while_scan [OF assms, of 1] assms by simp
  have H: "hv mod sz < sz" using assms by simp
  show ?thesis
    unfolding findElementIndex_walk_def probe_seq_def Let_def
    apply (simp only: up list.map probe_scan.simps)
    using H w apply simp
    done
qed

lemma while_nowrap_scan:
  "findElementIndex_while_nowrap eq fl sz index fd = probe_scan eq fl sz [index..<sz] fd"
proof (induction eq fl sz index fd rule: findElementIndex_while_nowrap.induct)
  case (1 eq fl sz index fd)
  show ?case
  proof (cases "index < sz")
    case True
    then have up: "[index..<sz] = index # [Suc index..<sz]" by (simp add: upt_conv_Cons)
    show ?thesis
      apply (subst findElementIndex_while_nowrap.simps)
      apply (simp only: up probe_scan.simps)
      using True 1 apply simp
      done
  next
    case False
    then show ?thesis by (subst findElementIndex_while_nowrap.simps) simp
  qed
qed

section \<open>The probe sequence\<close>

lemma probe_seq_length: "length (probe_seq sz home) = sz"
  by (simp add: probe_seq_def)

lemma probe_seq_nth: "k < sz \<Longrightarrow> probe_seq sz home ! k = (home + k) mod sz"
  by (simp add: probe_seq_def)

lemma probe_seq_hd: "0 < sz \<Longrightarrow> home < sz \<Longrightarrow> hd (probe_seq sz home) = home"
  by (simp add: probe_seq_def upt_conv_Cons)

lemma probe_seq_set:
  assumes "0 < sz" "home < sz"
  shows "set (probe_seq sz home) = {..<sz}"
proof
  show "set (probe_seq sz home) \<subseteq> {..<sz}"
    using assms by (auto simp: probe_seq_def)
next
  show "{..<sz} \<subseteq> set (probe_seq sz home)"
  proof
    fix i assume "i \<in> {..<sz}"
    then have i: "i < sz" by simp
    show "i \<in> set (probe_seq sz home)"
    proof (cases "home \<le> i")
      case True
      then have "(home + (i - home)) mod sz = i" using i by simp
      moreover have "i - home < sz" using i by simp
      ultimately show ?thesis
        unfolding probe_seq_def by (metis (mono_tags, lifting) atLeast0LessThan image_eqI lessThan_iff set_map set_upt)
    next
      case False
      then have "home + (sz + i - home) = sz + i" using assms by simp
      then have "(home + (sz + i - home)) mod sz = i" using i by simp
      moreover have "sz + i - home < sz" using False i by simp
      ultimately show ?thesis
        unfolding probe_seq_def by (metis (mono_tags, lifting) atLeast0LessThan image_eqI lessThan_iff set_map set_upt)
    qed
  qed
qed

lemma probe_seq_distinct:
  assumes "0 < sz" "home < sz"
  shows "distinct (probe_seq sz home)"
proof -
  have "card (set (probe_seq sz home)) = length (probe_seq sz home)"
    using probe_seq_set [OF assms] by (simp add: probe_seq_length)
  then show ?thesis by (rule card_distinct)
qed

section \<open>The loop body over a sequence of slots\<close>

lemma scan_True:
  "probe_scan eq fl sz sl fd = (i, True) \<Longrightarrow> i \<in> set sl \<and> fl ! i = 1 \<and> eq i"
  by (induction sl arbitrary: fd) (auto split: if_splits)

lemma scan_result:
  "probe_scan eq fl sz sl fd = (i, b) \<Longrightarrow> i \<in> set sl \<or> i = fd"
  by (induction sl arbitrary: fd) (auto split: if_splits)

lemma scan_stop_at:
  "\<forall>x\<in>set xs. \<not> stops eq fl x \<Longrightarrow> stops eq fl i \<Longrightarrow>
     probe_scan eq fl sz (xs @ i # ys) fd = (i, fl ! i \<noteq> 0)"
  by (induction xs arbitrary: fd) (auto simp: stops_def)

lemma scan_no_stop:
  "\<forall>x\<in>set sl. \<not> stops eq fl x \<Longrightarrow> sz \<notin> set sl \<Longrightarrow>
     probe_scan eq fl sz sl fd =
       (if fd \<noteq> sz then fd
        else (case find (\<lambda>x. fl ! x = 2) sl of None \<Rightarrow> sz | Some t \<Rightarrow> t), False)"
  by (induction sl arbitrary: fd) (auto simp: stops_def)

lemma scan_False_decomp:
  "probe_scan eq fl sz sl fd = (t, False) \<Longrightarrow> t \<noteq> fd \<Longrightarrow>
     \<exists>xs ys. sl = xs @ t # ys \<and> (\<forall>x\<in>set xs. \<not> stops eq fl x) \<and> t \<notin> set xs \<and> fl ! t \<noteq> 1"
proof (induction sl arbitrary: fd)
  case Nil
  then show ?case by simp
next
  case (Cons index rest)
  show ?case
  proof (cases "stops eq fl index")
    case True
    with Cons.prems have "t = index" "fl ! index = 0"
      by (auto simp: stops_def split: if_splits)
    then have "index # rest = [] @ t # rest \<and> (\<forall>x\<in>set []. \<not> stops eq fl x) \<and> t \<notin> set [] \<and> fl ! t \<noteq> 1"
      by simp
    then show ?thesis by blast
  next
    case False
    define fd' where "fd' = (if fl ! index = 2 \<and> fd = sz then index else fd)"
    from False Cons.prems(1) have r: "probe_scan eq fl sz rest fd' = (t, False)"
      by (auto simp: stops_def fd'_def split: if_splits)
    show ?thesis
    proof (cases "t = index")
      case True
      have "fl ! t \<noteq> 1"
      proof (cases "t = fd'")
        case True
        with Cons.prems(2) \<open>t = index\<close> show ?thesis
          by (auto simp: fd'_def split: if_splits)
      next
        case False
        from Cons.IH [OF r False] show ?thesis by blast
      qed
      with True have "index # rest = [] @ t # rest \<and> (\<forall>x\<in>set []. \<not> stops eq fl x) \<and> t \<notin> set [] \<and> fl ! t \<noteq> 1"
        by simp
      then show ?thesis by blast
    next
      case ne: False
      have "t \<noteq> fd'" using Cons.prems(2) ne by (auto simp: fd'_def)
      from Cons.IH [OF r this] obtain xs ys where
        d: "rest = xs @ t # ys" "\<forall>x\<in>set xs. \<not> stops eq fl x" "t \<notin> set xs" "fl ! t \<noteq> 1"
        by blast
      with False ne have "index # rest = (index # xs) @ t # ys \<and>
          (\<forall>x\<in>set (index # xs). \<not> stops eq fl x) \<and> t \<notin> set (index # xs) \<and> fl ! t \<noteq> 1"
        by simp
      then show ?thesis by blast
    qed
  qed
qed

lemma scan_sentinel:
  "probe_scan eq fl sz sl fd = (sz, False) \<Longrightarrow> sz \<notin> set sl \<Longrightarrow>
     fd = sz \<and> (\<forall>x\<in>set sl. fl ! x \<noteq> 0 \<and> fl ! x \<noteq> 2)"
proof (induction sl arbitrary: fd)
  case Nil
  then show ?case by simp
next
  case (Cons index rest)
  define fd' where "fd' = (if fl ! index = 2 \<and> fd = sz then index else fd)"
  from Cons.prems have ne: "index \<noteq> sz" "sz \<notin> set rest" by auto
  from Cons.prems(1) ne(1) have nz: "fl ! index \<noteq> 0"
    by (auto split: if_splits)
  with Cons.prems(1) have r: "probe_scan eq fl sz rest fd' = (sz, False)"
    by (auto simp: fd'_def split: if_splits)
  from Cons.IH [OF r ne(2)] have ih: "fd' = sz" "\<forall>x\<in>set rest. fl ! x \<noteq> 0 \<and> fl ! x \<noteq> 2"
    by blast+
  from ih(1) ne(1) have "fd = sz" "fl ! index \<noteq> 2"
    by (auto simp: fd'_def split: if_splits)
  with nz ih(2) show ?case by simp
qed

lemma scan_cong:
  "\<forall>x\<in>set sl. fl' ! x = fl ! x \<and> (fl ! x = 1 \<longrightarrow> eq' x = eq x) \<Longrightarrow>
     probe_scan eq' fl' sz sl fd = probe_scan eq fl sz sl fd"
  by (induction sl arbitrary: fd) auto

section \<open>Counting filled slots\<close>

lemma occupied_le: "occupied fl \<le> length fl"
  by (simp add: occupied_def)

lemma occupied_fill:
  "i < length fl \<Longrightarrow> fl ! i \<noteq> 1 \<Longrightarrow> occupied (fl[i := 1]) = Suc (occupied fl)"
proof (induction fl arbitrary: i)
  case Nil
  then show ?case by simp
next
  case (Cons f fl)
  then show ?case by (cases i) (auto simp: occupied_def)
qed

lemma occupied_delete:
  "i < length fl \<Longrightarrow> fl ! i = 1 \<Longrightarrow> Suc (occupied (fl[i := 2])) = occupied fl"
proof (induction fl arbitrary: i)
  case Nil
  then show ?case by simp
next
  case (Cons f fl)
  then show ?case by (cases i) (auto simp: occupied_def)
qed

lemma occupied_all:
  "\<forall>i<length fl. fl ! i = 1 \<Longrightarrow> occupied fl = length fl"
proof -
  assume "\<forall>i<length fl. fl ! i = 1"
  then have "\<forall>f\<in>set fl. f = 1" by (metis in_set_conv_nth)
  then have "filter (\<lambda>f. f = 1) fl = fl" by (simp add: filter_id_conv)
  then show ?thesis by (simp add: occupied_def)
qed

section \<open>The three probes as scans\<close>

lemma findElementIndex_scan:
  "0 < size_f sp \<Longrightarrow>
     findElementIndex h sp (Some e) =
       Inr (probe_scan (\<lambda>index. compare sp (deref h (data sp ! index)) e = 0) (flags sp) (size_f sp)
              (probe_seq (size_f sp) (hash sp e mod size_f sp)) (size_f sp))"
  by (simp add: findElementIndex_def walk_scan)

lemma findElementIndex_str_scan:
  "0 < size_f sp \<Longrightarrow>
     findElementIndex_str h sp (Some e) =
       Inr (probe_scan (\<lambda>index. strcmp (deref h (data sp ! index)) e = 0) (flags sp) (size_f sp)
              (probe_seq (size_f sp) (strhash e mod size_f sp)) (size_f sp))"
  by (simp add: findElementIndex_str_def walk_scan)

lemma findElementIndex_nowrap_scan:
  "0 < size_f sp \<Longrightarrow>
     findElementIndex_nowrap h sp (Some e) =
       Inr (probe_scan (\<lambda>index. strcmp (deref h (data sp ! index)) e = 0) (flags sp) (size_f sp)
              [strhash e mod size_f sp..<size_f sp] (size_f sp))"
  by (simp add: findElementIndex_nowrap_def while_nowrap_scan)

lemma scan_bounded:
  assumes "probe_scan eq fl sz sl sz = (i, found)" "\<forall>x\<in>set sl. x < sz"
  shows "i \<le> sz \<and> (found \<longrightarrow> i < sz \<and> fl ! i = 1 \<and> eq i)"
proof -
  from scan_result [OF assms(1)] assms(2) have "i \<le> sz" by auto
  moreover have "found \<longrightarrow> i < sz \<and> fl ! i = 1 \<and> eq i"
    using scan_True [of eq fl sz sl sz i] assms by auto
  ultimately show ?thesis by simp
qed

lemma probe_seq_bound: "0 < sz \<Longrightarrow> \<forall>x\<in>set (probe_seq sz home). x < sz"
  by (auto simp: probe_seq_def)

text \<open>
  C9. For every set with capacity > 0 and every non-null element, the probe returns (it
  is a total function and no assertion fails), the index it returns is at most the
  capacity, and when it reports found the index is below the capacity, the slot there
  is filled and the stored element compares equal to the searched one. Stated for the
  generic table of part_000 and for the probe of src/generic/table.c.
\<close>

theorem findElementIndex_safe:
  assumes "0 < size_f sp" and "0 < size_f st"
  shows "(\<exists>i found. findElementIndex h sp (Some e) = Inr (i, found) \<and> i \<le> size_f sp \<and>
            (found \<longrightarrow> i < size_f sp \<and> flags sp ! i = 1 \<and>
               compare sp (deref h (data sp ! i)) e = 0)) \<and>
         (\<exists>i found. findElementIndex_nowrap hs st (Some s) = Inr (i, found) \<and> i \<le> size_f st \<and>
            (found \<longrightarrow> i < size_f st \<and> flags st ! i = 1 \<and>
               strcmp (deref hs (data st ! i)) s = 0))"
proof
  obtain i found where r: "probe_scan (\<lambda>index. compare sp (deref h (data sp ! index)) e = 0)
      (flags sp) (size_f sp) (probe_seq (size_f sp) (hash sp e mod size_f sp)) (size_f sp) = (i, found)"
    by (cases "probe_scan (\<lambda>index. compare sp (deref h (data sp ! index)) e = 0)
      (flags sp) (size_f sp) (probe_seq (size_f sp) (hash sp e mod size_f sp)) (size_f sp)") blast
  from scan_bounded [OF r probe_seq_bound [OF assms(1)]] r findElementIndex_scan [OF assms(1), of h e]
  show "\<exists>i found. findElementIndex h sp (Some e) = Inr (i, found) \<and> i \<le> size_f sp \<and>
            (found \<longrightarrow> i < size_f sp \<and> flags sp ! i = 1 \<and>
               compare sp (deref h (data sp ! i)) e = 0)"
    by simp
next
  obtain i found where r: "probe_scan (\<lambda>index. strcmp (deref hs (data st ! index)) s = 0)
      (flags st) (size_f st) [strhash s mod size_f st..<size_f st] (size_f st) = (i, found)"
    by (cases "probe_scan (\<lambda>index. strcmp (deref hs (data st ! index)) s = 0)
      (flags st) (size_f st) [strhash s mod size_f st..<size_f st] (size_f st)") blast
  have b: "\<forall>x\<in>set [strhash s mod size_f st..<size_f st]. x < size_f st" by simp
  from scan_bounded [OF r b] r findElementIndex_nowrap_scan [OF assms(2), of hs s]
  show "\<exists>i found. findElementIndex_nowrap hs st (Some s) = Inr (i, found) \<and> i \<le> size_f st \<and>
            (found \<longrightarrow> i < size_f st \<and> flags st ! i = 1 \<and>
               strcmp (deref hs (data st ! i)) s = 0)"
    by simp
qed

section \<open>The scenario, step by step\<close>

lemmas scen_defs = scen0_def scen1_def scen2_def scen3_def scen4_def scen5_def
  cmp_nat_def hash_mod4_def copy_nat_def heap1_def heap2_def heap3_def heap5_def

lemmas eval_defs = findElementIndex_def findElementIndex_walk_def
  findElementIndex_while.simps addElement_def removeElement_def findElement_def
  alloc_def deref_def NULL_def

lemma scen_create: "createSet 4 cmp_nat hash_mod4 = Inr scen0"
  by (simp add: createSet_def scen0_def NULL_def numeral_eq_Suc)

lemma scen_add1: "addElement copy_nat [] scen0 (Some 1) = Inr (heap1, scen1)"
  by (simp add: scen_defs eval_defs)

lemma scen_add5: "addElement copy_nat heap1 scen1 (Some 5) = Inr (heap2, scen2)"
  by (simp add: scen_defs eval_defs)

lemma scen_add2: "addElement copy_nat heap2 scen2 (Some 2) = Inr (heap3, scen3)"
  by (simp add: scen_defs eval_defs)

lemma scen_remove5: "removeElement heap3 scen3 (Some 5) = Inr scen4"
  by (simp add: scen_defs eval_defs)

lemma scen_probe9: "findElementIndex heap3 scen4 (Some 9) = Inr (0, False)"
  by (simp add: scen_defs eval_defs)

lemma scen_add9: "addElement copy_nat heap3 scen4 (Some 9) = Inr (heap5, scen5)"
  by (simp add: scen_defs eval_defs)

lemma scen_find5: "findElement heap3 scen4 (Some 5) = Inr NULL"
  by (simp add: scen_defs eval_defs)

lemma scen_find2: "findElement heap3 scen4 (Some 2) = Inr 3"
  by (simp add: scen_defs eval_defs)

lemma scen_find9: "findElement heap5 scen5 (Some 9) = Inr 4"
  by (simp add: scen_defs eval_defs)

lemma scen_sizes: "numElements scen3 = 3 \<and> numElements scen4 = 2 \<and> numElements scen5 = 3"
  by (simp add: scen_defs numElements_def)

lemma scen_slots:
  "flags scen3 = [0, 1, 1, 1] \<and> flags scen4 = [0, 1, 2, 1] \<and> flags scen5 = [1, 1, 2, 1] \<and>
   map (deref heap3) (data scen3) ! 1 = 1 \<and> map (deref heap3) (data scen3) ! 2 = 5 \<and>
   map (deref heap3) (data scen3) ! 3 = 2 \<and> deref heap3 3 = 2 \<and>
   deref heap5 (data scen5 ! 0) = 9 \<and> deref heap5 4 = 9"
  by (simp add: scen_defs deref_def)

theorem findElementIndex_safe_witness:
  "0 < size_f scen3 \<and> 0 < size_f str1 \<and>
   (\<exists>i found. findElementIndex heap3 scen3 (Some 5) = Inr (i, found) \<and> i \<le> size_f scen3 \<and>
      (found \<longrightarrow> i < size_f scen3 \<and> flags scen3 ! i = 1 \<and>
         compare scen3 (deref heap3 (data scen3 ! i)) 5 = 0)) \<and>
   (\<exists>i found. findElementIndex_nowrap [''a''] str1 (Some ''c'') = Inr (i, found) \<and> i \<le> size_f str1 \<and>
      (found \<longrightarrow> i < size_f str1 \<and> flags str1 ! i = 1 \<and>
         strcmp (deref [''a''] (data str1 ! i)) ''c'' = 0))"
  using findElementIndex_safe [of scen3 str1 heap3 5 "[''a'']" "''c''"]
  by (simp add: scen3_def str1_def)

text \<open>
  C1, counterexample. In the scenario (capacity 4, hash the identity modulo 4, integer
  equality), after add(1), add(5), add(2), remove(5) the tombstone of 5 is slot 2. The
  probe for 9 returns slot 0, the empty slot it reaches after passing the tombstone, so
  add(9) fills slot 0 and slot 2 stays a tombstone: the tombstone is not reused.
\<close>

theorem scenario_add9_skips_tombstone:
  "flags scen4 ! 2 = 2 \<and>
   findElementIndex heap3 scen4 (Some 9) = Inr (0, False) \<and>
   addElement copy_nat heap3 scen4 (Some 9) = Inr (heap5, scen5) \<and>
   flags scen5 ! 2 = 2 \<and> flags scen5 ! 0 = 1 \<and> deref heap5 (data scen5 ! 0) = 9"
  using scen_probe9 scen_add9 scen_slots by (simp add: scen4_def)

text \<open>
  C1, as amended. add(1); add(5); add(2) fill slots 1, 2 and 3 (5 probes from home slot
  1 to slot 2, 2 from home slot 2 to slot 3) and the size is 3; remove(5) leaves a
  tombstone in slot 2, the size is 2, find(5) is absent and find(2) is still present;
  add(9) probes from home slot 1 past the tombstone to the empty slot 0 and stores 9
  there, the size is 3 and find(9) is present.
\<close>

theorem scenario_capacity4:
  "createSet 4 cmp_nat hash_mod4 = Inr scen0 \<and>
   addElement copy_nat [] scen0 (Some 1) = Inr (heap1, scen1) \<and>
   addElement copy_nat heap1 scen1 (Some 5) = Inr (heap2, scen2) \<and>
   addElement copy_nat heap2 scen2 (Some 2) = Inr (heap3, scen3) \<and>
   flags scen3 = [0, 1, 1, 1] \<and> map (deref heap3) (data scen3) ! 1 = 1 \<and>
   map (deref heap3) (data scen3) ! 2 = 5 \<and> map (deref heap3) (data scen3) ! 3 = 2 \<and>
   numElements scen3 = 3 \<and>
   removeElement heap3 scen3 (Some 5) = Inr scen4 \<and>
   flags scen4 = [0, 1, 2, 1] \<and>
   numElements scen4 = 2 \<and>
   findElement heap3 scen4 (Some 5) = Inr NULL \<and>
   findElement heap3 scen4 (Some 2) = Inr 3 \<and> deref heap3 3 = 2 \<and>
   addElement copy_nat heap3 scen4 (Some 9) = Inr (heap5, scen5) \<and>
   flags scen5 = [1, 1, 2, 1] \<and>
   numElements scen5 = 3 \<and>
   findElement heap5 scen5 (Some 9) = Inr 4 \<and> deref heap5 4 = 9"
  using scen_create scen_add1 scen_add5 scen_add2 scen_remove5 scen_add9
    scen_find5 scen_find2 scen_find9 scen_sizes scen_slots
  by simp

section \<open>What the probe returns\<close>

lemma scan_stop_at_nth:
  assumes "k < length sl" "\<forall>j<k. \<not> stops eq fl (sl ! j)" "stops eq fl (sl ! k)"
  shows "probe_scan eq fl sz sl fd = (sl ! k, fl ! (sl ! k) \<noteq> 0)"
proof -
  have d: "sl = take k sl @ sl ! k # drop (Suc k) sl"
    using assms(1) by (rule id_take_nth_drop)
  have "\<forall>x\<in>set (take k sl). \<not> stops eq fl x"
  proof
    fix x assume "x \<in> set (take k sl)"
    then obtain j where "j < length (take k sl)" "take k sl ! j = x"
      by (auto simp: in_set_conv_nth)
    with assms(1,2) show "\<not> stops eq fl x" by auto
  qed
  from scan_stop_at [OF this assms(3), of sz "drop (Suc k) sl" fd] d show ?thesis by simp
qed

lemma find_first_nth:
  "k < length xs \<Longrightarrow> P (xs ! k) \<Longrightarrow> \<forall>j<k. \<not> P (xs ! j) \<Longrightarrow> find P xs = Some (xs ! k)"
proof (induction xs arbitrary: k)
  case Nil
  then show ?case by simp
next
  case (Cons x xs)
  show ?case
  proof (cases k)
    case 0
    with Cons.prems show ?thesis by simp
  next
    case (Suc m)
    with Cons.prems have "\<not> P x" by auto
    moreover have "\<forall>j<m. \<not> P (xs ! j)"
    proof (intro allI impI)
      fix j assume "j < m"
      then have "Suc j < k" using Suc by simp
      with Cons.prems(3) have "\<not> P ((x # xs) ! Suc j)" by blast
      then show "\<not> P (xs ! j)" by simp
    qed
    then have "find P xs = Some (xs ! m)"
      using Cons.IH [of m] Cons.prems Suc by auto
    ultimately show ?thesis using Suc by simp
  qed
qed

lemma scan_first_tombstone:
  assumes "\<forall>j<length sl. \<not> stops eq fl (sl ! j)" "\<forall>x\<in>set sl. x < sz"
    "k < length sl" "fl ! (sl ! k) = 2" "\<forall>j<k. fl ! (sl ! j) \<noteq> 2"
  shows "probe_scan eq fl sz sl sz = (sl ! k, False)"
proof -
  have ns: "\<forall>x\<in>set sl. \<not> stops eq fl x"
    using assms(1) by (auto simp: in_set_conv_nth)
  have nz: "sz \<notin> set sl" using assms(2) by auto
  have "find (\<lambda>x. fl ! x = 2) sl = Some (sl ! k)"
    using assms(3,4,5) by (intro find_first_nth) auto
  with scan_no_stop [OF ns nz, of sz] show ?thesis by simp
qed

text \<open>
  C2, as amended. For every set with capacity > 0 and every searched element: when the
  walk reaches an Empty slot (no slot before it on the walk is Empty or holds an equal
  element), the probe returns the index of that Empty slot with found = false, whether
  or not it has passed Tombstoned slots. The index of the first Tombstoned slot of the
  walk is returned, with found = false, when the walk has visited all capacity slots
  without reaching an Empty slot or an equal element. The first part also holds for the
  probe of src/generic/table.c, whose walk goes from the home slot to the end of the
  array.
\<close>

theorem probe_returns_empty_slot:
  "(0 < size_f sp \<and> k < size_f sp \<and>
      flags sp ! ((hash sp e mod size_f sp + k) mod size_f sp) = 0 \<and>
      (\<forall>j<k. \<not> stops (\<lambda>index. compare sp (deref h (data sp ! index)) e = 0) (flags sp)
                  ((hash sp e mod size_f sp + j) mod size_f sp))
    \<longrightarrow> findElementIndex h sp (Some e) = Inr ((hash sp e mod size_f sp + k) mod size_f sp, False)) \<and>
   (0 < size_f sp \<and> k < size_f sp \<and>
      (\<forall>j<size_f sp. \<not> stops (\<lambda>index. compare sp (deref h (data sp ! index)) e = 0) (flags sp)
                  ((hash sp e mod size_f sp + j) mod size_f sp)) \<and>
      flags sp ! ((hash sp e mod size_f sp + k) mod size_f sp) = 2 \<and>
      (\<forall>j<k. flags sp ! ((hash sp e mod size_f sp + j) mod size_f sp) \<noteq> 2)
    \<longrightarrow> findElementIndex h sp (Some e) = Inr ((hash sp e mod size_f sp + k) mod size_f sp, False)) \<and>
   (0 < size_f st \<and> strhash s mod size_f st + k < size_f st \<and>
      flags st ! (strhash s mod size_f st + k) = 0 \<and>
      (\<forall>j<k. \<not> stops (\<lambda>index. strcmp (deref hs (data st ! index)) s = 0) (flags st)
                  (strhash s mod size_f st + j))
    \<longrightarrow> findElementIndex_nowrap hs st (Some s) = Inr (strhash s mod size_f st + k, False))"
proof (intro conjI impI)
  let ?eq = "\<lambda>index. compare sp (deref h (data sp ! index)) e = 0"
  let ?sl = "probe_seq (size_f sp) (hash sp e mod size_f sp)"
  assume a: "0 < size_f sp \<and> k < size_f sp \<and>
      flags sp ! ((hash sp e mod size_f sp + k) mod size_f sp) = 0 \<and>
      (\<forall>j<k. \<not> stops ?eq (flags sp) ((hash sp e mod size_f sp + j) mod size_f sp))"
  then have k: "k < length ?sl" by (simp add: probe_seq_length)
  have n: "\<forall>j<k. \<not> stops ?eq (flags sp) (?sl ! j)"
    using a by (simp add: probe_seq_nth)
  have s: "stops ?eq (flags sp) (?sl ! k)"
    using a by (simp add: probe_seq_nth stops_def)
  from scan_stop_at_nth [OF k n s, of "size_f sp" "size_f sp"] a
  show "findElementIndex h sp (Some e) = Inr ((hash sp e mod size_f sp + k) mod size_f sp, False)"
    by (simp add: findElementIndex_scan probe_seq_nth)
next
  let ?eq = "\<lambda>index. compare sp (deref h (data sp ! index)) e = 0"
  let ?sl = "probe_seq (size_f sp) (hash sp e mod size_f sp)"
  assume a: "0 < size_f sp \<and> k < size_f sp \<and>
      (\<forall>j<size_f sp. \<not> stops ?eq (flags sp) ((hash sp e mod size_f sp + j) mod size_f sp)) \<and>
      flags sp ! ((hash sp e mod size_f sp + k) mod size_f sp) = 2 \<and>
      (\<forall>j<k. flags sp ! ((hash sp e mod size_f sp + j) mod size_f sp) \<noteq> 2)"
  then have k: "k < length ?sl" by (simp add: probe_seq_length)
  have n: "\<forall>j<length ?sl. \<not> stops ?eq (flags sp) (?sl ! j)"
    using a by (simp add: probe_seq_nth probe_seq_length)
  have b: "\<forall>x\<in>set ?sl. x < size_f sp" using a by (simp add: probe_seq_bound)
  have t: "flags sp ! (?sl ! k) = 2" using a by (simp add: probe_seq_nth)
  have f: "\<forall>j<k. flags sp ! (?sl ! j) \<noteq> 2" using a by (simp add: probe_seq_nth)
  from scan_first_tombstone [OF n b k t f] a
  show "findElementIndex h sp (Some e) = Inr ((hash sp e mod size_f sp + k) mod size_f sp, False)"
    by (simp add: findElementIndex_scan probe_seq_nth)
next
  let ?eq = "\<lambda>index. strcmp (deref hs (data st ! index)) s = 0"
  let ?home = "strhash s mod size_f st"
  let ?sl = "[?home..<size_f st]"
  assume a: "0 < size_f st \<and> ?home + k < size_f st \<and> flags st ! (?home + k) = 0 \<and>
      (\<forall>j<k. \<not> stops ?eq (flags st) (?home + j))"
  then have k: "k < length ?sl" by (simp add: less_diff_conv add.commute)
  have n: "\<forall>j<k. \<not> stops ?eq (flags st) (?sl ! j)" using a by simp
  have s: "stops ?eq (flags st) (?sl ! k)" using a by (simp add: stops_def)
  from scan_stop_at_nth [OF k n s, of "size_f st" "size_f st"] a
  show "findElementIndex_nowrap hs st (Some s) = Inr (?home + k, False)"
    by (simp add: findElementIndex_nowrap_scan)
qed

lemma less_3_cases: "(j::nat) < 3 \<longleftrightarrow> j = 0 \<or> j = 1 \<or> j = 2"
  by arith

lemma less_2_cases: "(j::nat) < 2 \<longleftrightarrow> j = 0 \<or> j = 1"
  by arith

lemma all_less_3: "(\<forall>j<(3::nat). P j) \<longleftrightarrow> P 0 \<and> P 1 \<and> P 2"
  by (auto simp: less_3_cases)

lemma all_less_2: "(\<forall>j<(2::nat). P j) \<longleftrightarrow> P 0 \<and> P 1"
  by (auto simp: less_2_cases)

lemma pair_create: "createSet 2 cmp_nat hash_mod4 = Inr pair0"
  by (simp add: createSet_def pair0_def NULL_def numeral_2_eq_2)

lemma pair_steps:
  "addElement copy_nat [] pair0 (Some 0) = Inr ([0], pair1) \<and>
   removeElement [0] pair1 (Some 0) = Inr pair2 \<and>
   addElement copy_nat [0] pair2 (Some 1) = Inr ([0, 1], pair3)"
  by (simp add: pair0_def pair1_def pair2_def pair3_def cmp_nat_def hash_mod4_def copy_nat_def
      eval_defs)

lemma pair2_probe: "findElementIndex [0] pair2 (Some 2) = Inr (1, False)"
  by (simp add: pair2_def cmp_nat_def hash_mod4_def eval_defs)

text \<open>
  C2, counterexample. A generic table of capacity 2: add(0) fills slot 0 and remove(0)
  leaves a tombstone there. The element 2 is not in the set and its home is slot 0; the
  walk passes the tombstone, reaches the Empty slot 1 and returns 1 with found = false,
  not the index 0 of the tombstone.
\<close>

theorem probe_prefers_empty_slot:
  "createSet 2 cmp_nat hash_mod4 = Inr pair0 \<and>
   addElement copy_nat [] pair0 (Some 0) = Inr ([0], pair1) \<and>
   removeElement [0] pair1 (Some 0) = Inr pair2 \<and>
   hash pair2 2 mod size_f pair2 = 0 \<and> flags pair2 ! 0 = 2 \<and> flags pair2 ! 1 = 0 \<and>
   findElementIndex [0] pair2 (Some 2) = Inr (1, False) \<and>
   findElementIndex [0] pair2 (Some 2) \<noteq> Inr (0, False)"
  using pair_create pair_steps pair2_probe by (simp add: pair2_def hash_mod4_def)

theorem probe_returns_empty_slot_witness:
  "findElementIndex heap3 scen4 (Some 9) = Inr (0, False) \<and>
   flags scen4 ! 0 = 0 \<and> flags scen4 ! 2 = 2 \<and>
   findElementIndex [0, 1] pair3 (Some 3) = Inr (0, False) \<and>
   flags pair3 = [2, 1] \<and>
   findElementIndex_nowrap [''b''] str2 (Some ''d'') = Inr (1, False) \<and>
   flags str2 = [2, 0]"
proof -
  have a: "0 < size_f scen4 \<and> 3 < size_f scen4 \<and>
      flags scen4 ! ((hash scen4 9 mod size_f scen4 + 3) mod size_f scen4) = 0 \<and>
      (\<forall>j<3. \<not> stops (\<lambda>index. compare scen4 (deref heap3 (data scen4 ! index)) 9 = 0) (flags scen4)
                  ((hash scen4 9 mod size_f scen4 + j) mod size_f scen4))"
    by (simp add: all_less_3 scen4_def heap3_def cmp_nat_def hash_mod4_def stops_def deref_def)
  have b: "0 < size_f pair3 \<and> 1 < size_f pair3 \<and>
      (\<forall>j<size_f pair3. \<not> stops (\<lambda>index. compare pair3 (deref [0, 1] (data pair3 ! index)) 3 = 0)
                  (flags pair3) ((hash pair3 3 mod size_f pair3 + j) mod size_f pair3)) \<and>
      flags pair3 ! ((hash pair3 3 mod size_f pair3 + 1) mod size_f pair3) = 2 \<and>
      (\<forall>j<1. flags pair3 ! ((hash pair3 3 mod size_f pair3 + j) mod size_f pair3) \<noteq> 2)"
    by (simp add: all_less_2 pair3_def cmp_nat_def hash_mod4_def stops_def deref_def)
  have c: "0 < size_f str2 \<and> strhash ''d'' mod size_f str2 + 1 < size_f str2 \<and>
      flags str2 ! (strhash ''d'' mod size_f str2 + 1) = 0 \<and>
      (\<forall>j<1. \<not> stops (\<lambda>index. strcmp (deref [''b''] (data str2 ! index)) ''d'' = 0) (flags str2)
                  (strhash ''d'' mod size_f str2 + j))"
    by (simp add: str2_def strhash_def stops_def)
  from probe_returns_empty_slot [of scen4 3 9 heap3, THEN conjunct1, THEN mp, OF a]
    probe_returns_empty_slot [of pair3 1 3 "[0, 1]", THEN conjunct2, THEN conjunct1, THEN mp, OF b]
    probe_returns_empty_slot [of _ 1 _ _ str2 "''d''" "[''b'']", THEN conjunct2, THEN conjunct2, THEN mp, OF c]
  show ?thesis
    by (simp add: scen4_def pair3_def str2_def hash_mod4_def strhash_def)
qed

section \<open>Well-formed tables\<close>

lemma wellformed_iff:
  "wellformed h sp \<longleftrightarrow>
     length (data sp) = size_f sp \<and> length (flags sp) = size_f sp \<and> size_f sp < 2 ^ 31 \<and>
     (\<forall>i<size_f sp. flags sp ! i \<le> 2) \<and>
     (\<forall>i<size_f sp. flags sp ! i = 1 \<longrightarrow> allocated h (data sp ! i))"
  by (auto simp: wellformed_def list_all_length)

lemma allocated_append: "allocated h p \<Longrightarrow> allocated (h @ xs) p"
  by (auto simp: allocated_def)

lemma deref_append: "allocated h p \<Longrightarrow> deref (h @ xs) p = deref h p"
  by (auto simp: allocated_def deref_def nth_append)

lemma deref_new: "deref (h @ [v]) (Suc (length h)) = v"
  by (simp add: deref_def)

lemma allocated_new: "allocated (h @ [v]) (Suc (length h))"
  by (simp add: allocated_def)

lemma allocated_not_NULL: "allocated h p \<Longrightarrow> p \<noteq> NULL"
  by (simp add: allocated_def NULL_def)

lemma scan_room:
  assumes len: "length fl = sz" and pos: "0 < sz" and home: "home < sz"
    and fl: "\<forall>i<sz. fl ! i \<le> 2" and room: "occupied fl < sz"
    and r: "probe_scan eq fl sz (probe_seq sz home) sz = (t, False)"
  shows "t < sz \<and> fl ! t \<noteq> 1"
proof -
  have set: "set (probe_seq sz home) = {..<sz}" using pos home by (rule probe_seq_set)
  have ne: "t \<noteq> sz"
  proof
    assume "t = sz"
    with r have "probe_scan eq fl sz (probe_seq sz home) sz = (sz, False)" by simp
    from scan_sentinel [OF this] set
    have "\<forall>x<sz. fl ! x \<noteq> 0 \<and> fl ! x \<noteq> 2" by auto
    with fl have "\<forall>i<length fl. fl ! i = 1"
      using len by (metis One_nat_def le_SucE le_zero_eq numeral_2_eq_2)
    then have "occupied fl = length fl" by (rule occupied_all)
    with room len show False by simp
  qed
  from scan_False_decomp [OF r ne] obtain xs ys where
    "probe_seq sz home = xs @ t # ys" "fl ! t \<noteq> 1" by blast
  then have "t \<in> set (probe_seq sz home)" by simp
  with set \<open>fl ! t \<noteq> 1\<close> show ?thesis by simp
qed

section \<open>The generic table: creating, adding, removing\<close>

lemma createSet_valid:
  assumes "0 \<le> maxElts" "maxElts < 2 ^ 31"
  shows "\<exists>sp. createSet maxElts cmp hsh = Inr sp \<and> wellformed h sp \<and> counted sp \<and>
           count sp = 0 \<and> size_f sp = nat maxElts \<and> flags sp = replicate (nat maxElts) 0"
proof -
  have "nat maxElts < 2 ^ 31" using assms by (simp add: nat_less_iff)
  then show ?thesis
    using assms by (simp add: createSet_def wellformed_iff counted_def occupied_def)
qed

lemma addElement_present:
  assumes "count sp < size_f sp" "findElementIndex h sp (Some e) = Inr (i, True)"
  shows "addElement strdup h sp (Some e) = Inr (h, sp)"
  using assms by (simp add: addElement_def)

lemma findElementIndex_room:
  assumes wf: "wellformed h sp" and c: "counted sp" and room: "count sp < size_f sp"
    and r: "findElementIndex h sp (Some e) = Inr (t, False)"
  shows "t < size_f sp \<and> flags sp ! t \<noteq> 1"
proof -
  have pos: "0 < size_f sp" using room by simp
  from r findElementIndex_scan [OF pos, of h e]
  have s: "probe_scan (\<lambda>index. compare sp (deref h (data sp ! index)) e = 0) (flags sp) (size_f sp)
              (probe_seq (size_f sp) (hash sp e mod size_f sp)) (size_f sp) = (t, False)"
    by simp
  show ?thesis
    using wf c room pos
    by (intro scan_room [OF _ _ _ _ _ s]) (auto simp: wellformed_iff counted_def)
qed

lemma addElement_fresh:
  assumes wf: "wellformed h sp" and c: "counted sp" and room: "count sp < size_f sp"
    and r: "findElementIndex h sp (Some e) = Inr (t, False)"
  shows "addElement strdup h sp (Some e) =
           Inr (h @ [strdup e],
                sp\<lparr>data := (data sp)[t := Suc (length h)], flags := (flags sp)[t := 1],
                   count := count sp + 1\<rparr>)"
proof -
  from findElementIndex_room [OF wf c room r] have t: "t < size_f sp" by simp
  have "size_f sp < 2 ^ 31" using wf by (simp add: wellformed_iff)
  with room have "count sp + 1 < 2 ^ 32" by simp
  then have "(count sp + 1) mod 2 ^ 32 = count sp + 1" by simp
  with t r room show ?thesis
    by (simp add: addElement_def alloc_def)
qed

lemma fresh_wellformed:
  assumes wf: "wellformed h sp" and t: "t < size_f sp"
  shows "wellformed (h @ [v])
           (sp\<lparr>data := (data sp)[t := Suc (length h)], flags := (flags sp)[t := 1], count := n\<rparr>)"
  using assms
  by (auto simp: wellformed_iff nth_list_update allocated_new allocated_append)

lemma fresh_counted:
  assumes wf: "wellformed h sp" and c: "counted sp" and t: "t < size_f sp" "flags sp ! t \<noteq> 1"
  shows "counted (sp\<lparr>data := d, flags := (flags sp)[t := 1], count := count sp + 1\<rparr>)"
  using assms occupied_fill [of t "flags sp"] by (simp add: counted_def wellformed_iff)

lemma fresh_found:
  assumes wf: "wellformed h sp" and pos: "0 < size_f sp"
    and r: "findElementIndex h sp (Some e) = Inr (t, False)" and t: "t < size_f sp"
    and eq: "compare sp v e = 0"
  shows "findElementIndex (h @ [v])
           (sp\<lparr>data := (data sp)[t := Suc (length h)], flags := (flags sp)[t := 1], count := n\<rparr>)
           (Some e) = Inr (t, True)"
proof -
  let ?eq = "\<lambda>index. compare sp (deref h (data sp ! index)) e = 0"
  let ?sl = "probe_seq (size_f sp) (hash sp e mod size_f sp)"
  let ?d' = "(data sp)[t := Suc (length h)]"
  let ?fl' = "(flags sp)[t := 1]"
  let ?eq' = "\<lambda>index. compare sp (deref (h @ [v]) (?d' ! index)) e = 0"
  from r findElementIndex_scan [OF pos, of h e]
  have s: "probe_scan ?eq (flags sp) (size_f sp) ?sl (size_f sp) = (t, False)" by simp
  have "t \<noteq> size_f sp" using t by simp
  from scan_False_decomp [OF s this] obtain xs ys where
    d: "?sl = xs @ t # ys" "\<forall>x\<in>set xs. \<not> stops ?eq (flags sp) x" "t \<notin> set xs"
    by blast
  have len: "length (data sp) = size_f sp" "length (flags sp) = size_f sp"
    using wf by (simp_all add: wellformed_iff)
  have bound: "\<forall>x\<in>set xs. x < size_f sp"
    using probe_seq_bound [OF pos, of "hash sp e mod size_f sp"] d(1) by simp
  have pre: "\<forall>x\<in>set xs. \<not> stops ?eq' ?fl' x"
  proof
    fix x assume x: "x \<in> set xs"
    then have ne: "x \<noteq> t" and lt: "x < size_f sp" and ns: "\<not> stops ?eq (flags sp) x"
      using d(2,3) bound by auto
    show "\<not> stops ?eq' ?fl' x"
    proof (cases "flags sp ! x = 1")
      case True
      then have "allocated h (data sp ! x)" using wf lt by (simp add: wellformed_iff)
      then have "deref (h @ [v]) (data sp ! x) = deref h (data sp ! x)" by (rule deref_append)
      with ns ne show ?thesis by (simp add: stops_def)
    next
      case False
      with ns ne show ?thesis by (simp add: stops_def)
    qed
  qed
  have at: "stops ?eq' ?fl' t"
    using t len eq by (simp add: stops_def deref_new)
  have "probe_scan ?eq' ?fl' (size_f sp) (xs @ t # ys) (size_f sp) = (t, ?fl' ! t \<noteq> 0)"
    using pre at by (rule scan_stop_at)
  moreover have "?fl' ! t = 1" using t len by simp
  ultimately have "probe_scan ?eq' ?fl' (size_f sp) ?sl (size_f sp) = (t, True)"
    using d(1) by simp
  then show ?thesis
    using pos by (simp add: findElementIndex_scan)
qed

lemma findElementIndex_total:
  "0 < size_f sp \<Longrightarrow> \<exists>i found. findElementIndex h sp (Some e) = Inr (i, found)"
  by (simp add: findElementIndex_scan)

lemma findElementIndex_True:
  assumes "0 < size_f sp" "findElementIndex h sp (Some e) = Inr (i, True)"
  shows "i < size_f sp \<and> flags sp ! i = 1 \<and> compare sp (deref h (data sp ! i)) e = 0"
proof -
  from assms findElementIndex_scan [OF assms(1), of h e]
  have "probe_scan (\<lambda>index. compare sp (deref h (data sp ! index)) e = 0) (flags sp) (size_f sp)
          (probe_seq (size_f sp) (hash sp e mod size_f sp)) (size_f sp) = (i, True)" by simp
  from scan_bounded [OF this probe_seq_bound [OF assms(1)]] show ?thesis by simp
qed

lemma removeElement_found:
  assumes wf: "wellformed h sp" and c: "counted sp" and pos: "0 < size_f sp"
    and r: "findElementIndex h sp (Some e) = Inr (i, True)"
  shows "removeElement h sp (Some e) =
           Inr (sp\<lparr>flags := (flags sp)[i := 2], count := count sp - 1\<rparr>) \<and>
         0 < count sp \<and> i < size_f sp \<and> flags sp ! i = 1"
proof -
  from findElementIndex_True [OF pos r] have i: "i < size_f sp" "flags sp ! i = 1" by simp_all
  have len: "length (flags sp) = size_f sp" "size_f sp < 2 ^ 31"
    using wf by (simp_all add: wellformed_iff)
  from occupied_delete [of i "flags sp"] i len c have cp: "0 < count sp"
    by (simp add: counted_def)
  have "count sp \<le> size_f sp" using c len occupied_le [of "flags sp"] by (simp add: counted_def)
  with len have "count sp < 2 ^ 32" by simp
  with cp have "(count sp + 2 ^ 32 - 1) mod 2 ^ 32 = count sp - 1"
    by (simp add: mod_if)
  with r cp i show ?thesis by (simp add: removeElement_def)
qed

lemma removed_valid:
  assumes wf: "wellformed h sp" and c: "counted sp" and i: "i < size_f sp" "flags sp ! i = 1"
  shows "wellformed h (sp\<lparr>flags := (flags sp)[i := 2], count := count sp - 1\<rparr>) \<and>
         counted (sp\<lparr>flags := (flags sp)[i := 2], count := count sp - 1\<rparr>)"
proof -
  have len: "length (flags sp) = size_f sp" using wf by (simp add: wellformed_iff)
  from occupied_delete [of i "flags sp"] i len
  have "occupied ((flags sp)[i := 2]) = occupied (flags sp) - 1" by simp
  with c have "counted (sp\<lparr>flags := (flags sp)[i := 2], count := count sp - 1\<rparr>)"
    by (simp add: counted_def)
  moreover have "wellformed h (sp\<lparr>flags := (flags sp)[i := 2], count := count sp - 1\<rparr>)"
    using wf i by (auto simp: wellformed_iff nth_list_update)
  ultimately show ?thesis by simp
qed

lemma less_4_cases: "(j::nat) < 4 \<longleftrightarrow> j = 0 \<or> j = 1 \<or> j = 2 \<or> j = 3"
  by arith

lemma all_less_4: "(\<forall>j<(4::nat). P j) \<longleftrightarrow> P 0 \<and> P 1 \<and> P 2 \<and> P 3"
  by (auto simp: less_4_cases)

lemma addElement_valid:
  assumes wf: "wellformed h sp" and c: "counted sp"
    and a: "addElement strdup h sp elt = Inr (h', sp')"
  shows "wellformed h' sp' \<and> counted sp'"
proof -
  from a obtain e where e: "elt = Some e" and room: "count sp < size_f sp"
    by (auto simp: addElement_def split: option.splits if_splits)
  then have pos: "0 < size_f sp" by simp
  from findElementIndex_total [OF pos, of h e] obtain i found where
    r: "findElementIndex h sp (Some e) = Inr (i, found)" by blast
  show ?thesis
  proof (cases found)
    case True
    with r addElement_present [OF room, of h e i strdup] a e wf c show ?thesis by simp
  next
    case False
    with r have r': "findElementIndex h sp (Some e) = Inr (i, False)" by simp
    from findElementIndex_room [OF wf c room r'] have i: "i < size_f sp" "flags sp ! i \<noteq> 1"
      by simp_all
    from addElement_fresh [OF wf c room r', of strdup] a e
    have "h' = h @ [strdup e]"
      "sp' = sp\<lparr>data := (data sp)[i := Suc (length h)], flags := (flags sp)[i := 1],
                 count := count sp + 1\<rparr>"
      by simp_all
    with fresh_wellformed [OF wf i(1)] fresh_counted [OF wf c i] show ?thesis by simp
  qed
qed

lemma removeElement_valid:
  assumes wf: "wellformed h sp" and c: "counted sp"
    and a: "removeElement h sp elt = Inr sp'"
  shows "wellformed h sp' \<and> counted sp'"
proof (cases elt)
  case None
  with a wf c show ?thesis by (simp add: removeElement_def)
next
  case (Some e)
  show ?thesis
  proof (cases "size_f sp = 0")
    case True
    with a Some show ?thesis by (simp add: removeElement_def findElementIndex_def)
  next
    case False
    then have pos: "0 < size_f sp" by simp
    from findElementIndex_total [OF pos, of h e] obtain i found where
      r: "findElementIndex h sp (Some e) = Inr (i, found)" by blast
    show ?thesis
    proof (cases found)
      case True
      with r have r': "findElementIndex h sp (Some e) = Inr (i, True)" by simp
      from removeElement_found [OF wf c pos r'] a Some
      have "sp' = sp\<lparr>flags := (flags sp)[i := 2], count := count sp - 1\<rparr>"
        "i < size_f sp" "flags sp ! i = 1" by simp_all
      with removed_valid [OF wf c, of i] show ?thesis by simp
    next
      case False
      with r a Some wf c show ?thesis by (simp add: removeElement_def)
    qed
  qed
qed

text \<open>
  With a copy that compares equal to the element (as \<^verbatim>\<open>strdup\<close> gives for a C string):
  on every well-formed set whose count is the number of filled slots and is below the
  capacity, add(e) returns, and find(e) on the resulting set returns a non-null pointer to
  a stored element that compares equal to e.
\<close>

lemma add_then_find:
  assumes "wellformed h sp" and "counted sp" and "count sp < size_f sp"
    and "compare sp (strdup e) e = 0"
  shows "\<exists>h' sp' p. addElement strdup h sp (Some e) = Inr (h', sp') \<and>
           findElement h' sp' (Some e) = Inr p \<and> p \<noteq> NULL \<and> allocated h' p \<and>
           compare sp' (deref h' p) e = 0"
proof -
  have pos: "0 < size_f sp" using assms(3) by simp
  from findElementIndex_total [OF pos, of h e] obtain i found where
    r: "findElementIndex h sp (Some e) = Inr (i, found)" by blast
  show ?thesis
  proof (cases found)
    case True
    with r have r': "findElementIndex h sp (Some e) = Inr (i, True)" by simp
    from findElementIndex_True [OF pos r']
    have i: "i < size_f sp" "flags sp ! i = 1" "compare sp (deref h (data sp ! i)) e = 0"
      by simp_all
    then have al: "allocated h (data sp ! i)" using assms(1) by (simp add: wellformed_iff)
    have "findElement h sp (Some e) = Inr (data sp ! i)"
      using r' by (simp add: findElement_def)
    with addElement_present [OF assms(3) r', of strdup] i al allocated_not_NULL [OF al]
    show ?thesis by simp
  next
    case False
    with r have r': "findElementIndex h sp (Some e) = Inr (i, False)" by simp
    let ?h' = "h @ [strdup e]"
    let ?sp' = "sp\<lparr>data := (data sp)[i := Suc (length h)], flags := (flags sp)[i := 1],
                     count := count sp + 1\<rparr>"
    from findElementIndex_room [OF assms(1,2,3) r'] have i: "i < size_f sp" by simp
    have len: "length (data sp) = size_f sp" using assms(1) by (simp add: wellformed_iff)
    have a: "addElement strdup h sp (Some e) = Inr (?h', ?sp')"
      by (rule addElement_fresh [OF assms(1,2,3) r'])
    have "findElementIndex ?h' ?sp' (Some e) = Inr (i, True)"
      by (rule fresh_found [OF assms(1) pos r' i assms(4)])
    then have f: "findElement ?h' ?sp' (Some e) = Inr (Suc (length h))"
      using i len by (simp add: findElement_def)
    have "Suc (length h) \<noteq> NULL" by (simp add: NULL_def)
    with a f assms(4) show ?thesis
      by (simp add: allocated_new deref_new)
  qed
qed

text \<open>
  C8, counterexample. \<^verbatim>\<open>createSet(0, ...)\<close> returns a set of capacity 0. No element is
  present in it, yet remove with a non-null element does not return: the probe computes
  \<^verbatim>\<open>hash(elt) % sp->size\<close> with \<^verbatim>\<open>size == 0\<close>.
\<close>

theorem remove_capacity0_fails:
  "createSet 0 cmp_nat hash_mod4 = Inr none0 \<and> count none0 = 0 \<and>
   removeElement [] none0 (Some 7) = Inl DivisionByZero \<and>
   removeElement [] none0 (Some 7) \<noteq> Inr none0"
  by (simp add: createSet_def none0_def removeElement_def findElementIndex_def)

text \<open>
  C8, as amended. remove with a null element returns the set as it was, whatever the
  set. For every set with capacity > 0, remove with an element that no filled slot holds
  an equal of returns the set as it was: count, flags and data are unchanged (and remove
  has no access to the stored objects other than reading them). find with a null element
  returns null.
\<close>

theorem remove_absent_noop:
  "removeElement h sp None = Inr sp \<and>
   (0 < size_f sp \<and>
    (\<forall>i<size_f sp. flags sp ! i = 1 \<longrightarrow> compare sp (deref h (data sp ! i)) e \<noteq> 0)
      \<longrightarrow> removeElement h sp (Some e) = Inr sp) \<and>
   findElement h sp None = Inr NULL"
proof (intro conjI impI)
  show "removeElement h sp None = Inr sp" by (simp add: removeElement_def)
  show "findElement h sp None = Inr NULL" by (simp add: findElement_def)
next
  assume a: "0 < size_f sp \<and>
    (\<forall>i<size_f sp. flags sp ! i = 1 \<longrightarrow> compare sp (deref h (data sp ! i)) e \<noteq> 0)"
  then have pos: "0 < size_f sp" by simp
  from findElementIndex_total [OF pos, of h e] obtain i found where
    r: "findElementIndex h sp (Some e) = Inr (i, found)" by blast
  have "\<not> found"
  proof
    assume found
    with r have "findElementIndex h sp (Some e) = Inr (i, True)" by simp
    from findElementIndex_True [OF pos this] a show False by blast
  qed
  with r show "removeElement h sp (Some e) = Inr sp" by (simp add: removeElement_def)
qed

theorem remove_absent_noop_witness:
  "0 < size_f scen4 \<and> flags scen4 = [0, 1, 2, 1] \<and>
   compare scen4 (deref heap3 (data scen4 ! 1)) 5 \<noteq> 0 \<and>
   compare scen4 (deref heap3 (data scen4 ! 3)) 5 \<noteq> 0 \<and>
   removeElement heap3 scen4 None = Inr scen4 \<and>
   removeElement heap3 scen4 (Some 5) = Inr scen4 \<and>
   findElement heap3 scen4 None = Inr NULL"
proof -
  have a: "0 < size_f scen4 \<and>
    (\<forall>i<size_f scen4. flags scen4 ! i = 1 \<longrightarrow> compare scen4 (deref heap3 (data scen4 ! i)) 5 \<noteq> 0)"
    by (simp add: all_less_4 scen4_def heap3_def cmp_nat_def deref_def)
  from remove_absent_noop [of heap3 scen4 5] a show ?thesis
    by (simp add: scen4_def heap3_def cmp_nat_def deref_def)
qed

section \<open>The string table of part_000 keeps the invariants\<close>

lemma createSet_str_valid:
  assumes "0 \<le> maxElts" "maxElts < 2 ^ 31"
  shows "\<exists>sp. createSet_str maxElts = Inr sp \<and> wellformed h sp \<and> counted sp \<and>
           count sp = 0 \<and> size_f sp = nat maxElts \<and> flags sp = replicate (nat maxElts) 0"
proof -
  have "nat maxElts < 2 ^ 31" using assms by (simp add: nat_less_iff)
  then show ?thesis
    using assms by (simp add: createSet_str_def wellformed_iff counted_def occupied_def)
qed

lemma findElementIndex_str_total:
  "0 < size_f sp \<Longrightarrow> \<exists>i found. findElementIndex_str h sp (Some e) = Inr (i, found)"
  by (simp add: findElementIndex_str_scan)

lemma findElementIndex_str_True:
  assumes "0 < size_f sp" "findElementIndex_str h sp (Some e) = Inr (i, True)"
  shows "i < size_f sp \<and> flags sp ! i = 1 \<and> strcmp (deref h (data sp ! i)) e = 0"
proof -
  from assms findElementIndex_str_scan [OF assms(1), of h e]
  have "probe_scan (\<lambda>index. strcmp (deref h (data sp ! index)) e = 0) (flags sp) (size_f sp)
          (probe_seq (size_f sp) (strhash e mod size_f sp)) (size_f sp) = (i, True)" by simp
  from scan_bounded [OF this probe_seq_bound [OF assms(1)]] show ?thesis by simp
qed

lemma findElementIndex_str_room:
  assumes wf: "wellformed h sp" and c: "counted sp" and room: "count sp < size_f sp"
    and r: "findElementIndex_str h sp (Some e) = Inr (t, False)"
  shows "t < size_f sp \<and> flags sp ! t \<noteq> 1"
proof -
  have pos: "0 < size_f sp" using room by simp
  from r findElementIndex_str_scan [OF pos, of h e]
  have s: "probe_scan (\<lambda>index. strcmp (deref h (data sp ! index)) e = 0) (flags sp) (size_f sp)
              (probe_seq (size_f sp) (strhash e mod size_f sp)) (size_f sp) = (t, False)"
    by simp
  show ?thesis
    using wf c room pos
    by (intro scan_room [OF _ _ _ _ _ s]) (auto simp: wellformed_iff counted_def)
qed

lemma addElement_str_fresh:
  assumes wf: "wellformed h sp" and c: "counted sp" and room: "count sp < size_f sp"
    and r: "findElementIndex_str h sp (Some e) = Inr (t, False)"
  shows "addElement_str h sp (Some e) =
           Inr (h @ [e],
                sp\<lparr>data := (data sp)[t := Suc (length h)], flags := (flags sp)[t := 1],
                   count := count sp + 1\<rparr>)"
proof -
  from findElementIndex_str_room [OF wf c room r] have t: "t < size_f sp" by simp
  have "size_f sp < 2 ^ 31" using wf by (simp add: wellformed_iff)
  with room have "count sp + 1 < 2 ^ 32" by simp
  then have "(count sp + 1) mod 2 ^ 32 = count sp + 1" by simp
  with t r room show ?thesis
    by (simp add: addElement_str_def alloc_def)
qed

lemma addElement_str_valid:
  assumes wf: "wellformed h sp" and c: "counted sp"
    and a: "addElement_str h sp elt = Inr (h', sp')"
  shows "wellformed h' sp' \<and> counted sp'"
proof -
  from a obtain e where e: "elt = Some e" and room: "count sp < size_f sp"
    by (auto simp: addElement_str_def split: option.splits if_splits)
  then have pos: "0 < size_f sp" by simp
  from findElementIndex_str_total [OF pos, of h e] obtain i found where
    r: "findElementIndex_str h sp (Some e) = Inr (i, found)" by blast
  show ?thesis
  proof (cases found)
    case True
    with r a e room wf c show ?thesis by (simp add: addElement_str_def)
  next
    case False
    with r have r': "findElementIndex_str h sp (Some e) = Inr (i, False)" by simp
    from findElementIndex_str_room [OF wf c room r'] have i: "i < size_f sp" "flags sp ! i \<noteq> 1"
      by simp_all
    from addElement_str_fresh [OF wf c room r'] a e
    have "h' = h @ [e]"
      "sp' = sp\<lparr>data := (data sp)[i := Suc (length h)], flags := (flags sp)[i := 1],
                 count := count sp + 1\<rparr>"
      by simp_all
    with fresh_wellformed [OF wf i(1)] fresh_counted [OF wf c i] show ?thesis by simp
  qed
qed

lemma removeElement_str_valid:
  assumes wf: "wellformed h sp" and c: "counted sp"
    and a: "removeElement_str h sp elt = Inr sp'"
  shows "wellformed h sp' \<and> counted sp'"
proof (cases elt)
  case None
  with a wf c show ?thesis by (simp add: removeElement_str_def)
next
  case (Some e)
  show ?thesis
  proof (cases "size_f sp = 0")
    case True
    with a Some show ?thesis by (simp add: removeElement_str_def findElementIndex_str_def)
  next
    case False
    then have pos: "0 < size_f sp" by simp
    from findElementIndex_str_total [OF pos, of h e] obtain i found where
      r: "findElementIndex_str h sp (Some e) = Inr (i, found)" by blast
    show ?thesis
    proof (cases found)
      case True
      with r have r': "findElementIndex_str h sp (Some e) = Inr (i, True)" by simp
      from findElementIndex_str_True [OF pos r'] have i: "i < size_f sp" "flags sp ! i = 1"
        by simp_all
      have len: "length (flags sp) = size_f sp" "size_f sp < 2 ^ 31"
        using wf by (simp_all add: wellformed_iff)
      from occupied_delete [of i "flags sp"] i len c have cp: "0 < count sp"
        by (simp add: counted_def)
      have "count sp \<le> size_f sp"
        using c len occupied_le [of "flags sp"] by (simp add: counted_def)
      with len have "count sp < 2 ^ 32" by simp
      with cp have "(count sp + 2 ^ 32 - 1) mod 2 ^ 32 = count sp - 1"
        by (simp add: mod_if)
      with r' a Some have "sp' = sp\<lparr>flags := (flags sp)[i := 2], count := count sp - 1\<rparr>"
        by (simp add: removeElement_str_def)
      with removed_valid [OF wf c i] show ?thesis by simp
    next
      case False
      with r a Some wf c show ?thesis by (simp add: removeElement_str_def)
    qed
  qed
qed

section \<open>The table of src/generic/table.c on concrete inputs\<close>

lemma nowrap_create: "createSet_nowrap 2 = Inr str0"
  by (simp add: createSet_nowrap_def str0_def NULL_def numeral_2_eq_2)

lemma str_create: "createSet_str 2 = Inr str0"
  by (simp add: createSet_str_def str0_def NULL_def numeral_2_eq_2)

lemma str_add_a: "addElement_str [] str0 (Some ''a'') = Inr ([''a''], str1)"
  by (simp add: addElement_str_def findElementIndex_str_def findElementIndex_walk_def
      findElementIndex_while.simps alloc_def strhash_def str0_def str1_def)

lemma nowrap_add_a: "addElement_nowrap [] str0 (Some ''a'') = Inr ([''a''], nowrap1)"
  by (simp add: addElement_nowrap_def findElementIndex_nowrap_def
      findElementIndex_while_nowrap.simps alloc_def strhash_def str0_def nowrap1_def)

lemma nowrap_add_a_again:
  "addElement_nowrap [''a''] nowrap1 (Some ''a'') = Inr ([''a'', ''a''], nowrap2)"
  by (simp add: addElement_nowrap_def findElementIndex_nowrap_def
      findElementIndex_while_nowrap.simps alloc_def strhash_def nowrap1_def nowrap2_def)

lemma nowrap_probe_c: "findElementIndex_nowrap [''a''] str1 (Some ''c'') = Inr (2, False)"
  by (simp add: findElementIndex_nowrap_def findElementIndex_while_nowrap.simps
      strhash_def deref_def str1_def)

lemma str_probe_c: "findElementIndex_str [''a''] str1 (Some ''c'') = Inr (0, False)"
  by (simp add: findElementIndex_str_def findElementIndex_walk_def findElementIndex_while.simps
      strhash_def deref_def str1_def)

text \<open>
  C4, the failing input. \<^verbatim>\<open>addElement\<close> of src/generic/table.c on the empty table of
  capacity 2 with \<^verbatim>\<open>"a"\<close>: the count becomes 1 and no flag is written, so no slot is
  filled. The \<^verbatim>\<open>addElement\<close> of part_000 writes flag 1 at the probed slot.
\<close>

theorem nowrap_add_leaves_flags:
  "createSet_nowrap 2 = Inr str0 \<and>
   addElement_nowrap [] str0 (Some ''a'') = Inr ([''a''], nowrap1) \<and>
   count nowrap1 = 1 \<and> flags nowrap1 = [0, 0] \<and> occupied (flags nowrap1) = 0 \<and>
   addElement_str [] str0 (Some ''a'') = Inr ([''a''], str1) \<and>
   count str1 = 1 \<and> flags str1 = [0, 1] \<and> occupied (flags str1) = 1"
  using nowrap_create nowrap_add_a str_add_a
  by (simp add: nowrap1_def str1_def occupied_def)

text \<open>
  C6, the failing input. \<^verbatim>\<open>addElement\<close> of src/generic/table.c twice with \<^verbatim>\<open>"a"\<close> on the
  empty table of capacity 2: the second call does not find the first copy (its slot is
  still flagged empty), stores a second copy over it and the count is 2.
\<close>

theorem nowrap_add_twice_counts_twice:
  "createSet_nowrap 2 = Inr str0 \<and> numElements str0 = 0 \<and>
   addElement_nowrap [] str0 (Some ''a'') = Inr ([''a''], nowrap1) \<and>
   addElement_nowrap [''a''] nowrap1 (Some ''a'') = Inr ([''a'', ''a''], nowrap2) \<and>
   numElements nowrap2 = 2"
  using nowrap_create nowrap_add_a nowrap_add_a_again
  by (simp add: numElements_def str0_def nowrap2_def)

section \<open>Enumeration\<close>

lemma occupied_upt:
  "occupied fl = length (filter (\<lambda>j. fl ! j = 1) [0..<length fl])"
proof -
  have "filter (\<lambda>f. f = 1) (map (\<lambda>j. fl ! j) [0..<length fl]) =
        map (\<lambda>j. fl ! j) (filter (\<lambda>j. fl ! j = 1) [0..<length fl])"
    by (simp add: filter_map comp_def)
  moreover have "map (\<lambda>j. fl ! j) [0..<length fl] = fl" by (rule map_nth)
  ultimately have "length (filter (\<lambda>f. f = 1) fl) =
      length (map (\<lambda>j. fl ! j) (filter (\<lambda>j. fl ! j = 1) [0..<length fl]))"
    by simp
  then show ?thesis by (simp add: occupied_def)
qed

lemma getElements_for_fill:
  "i \<le> size_f sp \<Longrightarrow> length xs = w \<Longrightarrow>
   length (filter (\<lambda>j. flags sp ! j = 1) [i..<size_f sp]) \<le> r \<Longrightarrow>
   getElements_for sp i w (xs @ replicate r None) =
     Inr (xs @ map (\<lambda>j. Some (data sp ! j)) (filter (\<lambda>j. flags sp ! j = 1) [i..<size_f sp]) @
          replicate (r - length (filter (\<lambda>j. flags sp ! j = 1) [i..<size_f sp])) None)"
proof (induction "size_f sp - i" arbitrary: i xs w r)
  case 0
  then have "i = size_f sp" by simp
  then show ?case by (subst getElements_for.simps) simp
next
  case (Suc n)
  then have lt: "i < size_f sp" by simp
  then have up: "[i..<size_f sp] = i # [Suc i..<size_f sp]" by (simp add: upt_conv_Cons)
  show ?case
  proof (cases "flags sp ! i = 1")
    case True
    with Suc.prems(3) up obtain r' where r: "r = Suc r'"
      "length (filter (\<lambda>j. flags sp ! j = 1) [Suc i..<size_f sp]) \<le> r'"
      by (cases r) auto
    have upd: "(xs @ replicate r None)[w := Some (data sp ! i)] =
        (xs @ [Some (data sp ! i)]) @ replicate r' None"
      using Suc.prems(2) r(1) by (simp add: list_update_append)
    have ih: "getElements_for sp (Suc i) (Suc w) ((xs @ [Some (data sp ! i)]) @ replicate r' None) =
      Inr ((xs @ [Some (data sp ! i)]) @
           map (\<lambda>j. Some (data sp ! j)) (filter (\<lambda>j. flags sp ! j = 1) [Suc i..<size_f sp]) @
           replicate (r' - length (filter (\<lambda>j. flags sp ! j = 1) [Suc i..<size_f sp])) None)"
      using Suc.hyps(2) lt Suc.prems(2) r(2)
      by (intro Suc.hyps(1)) auto
    show ?thesis
      apply (subst getElements_for.simps)
      using lt True Suc.prems(2) r(1) upd ih up
      apply simp
      done
  next
    case False
    have ih: "getElements_for sp (Suc i) w (xs @ replicate r None) =
      Inr (xs @ map (\<lambda>j. Some (data sp ! j)) (filter (\<lambda>j. flags sp ! j = 1) [Suc i..<size_f sp]) @
           replicate (r - length (filter (\<lambda>j. flags sp ! j = 1) [Suc i..<size_f sp])) None)"
      using Suc.hyps(2) lt Suc.prems(2,3) False up
      by (intro Suc.hyps(1)) auto
    show ?thesis
      apply (subst getElements_for.simps)
      using lt False ih up
      apply simp
      done
  qed
qed

lemma getElements_counted:
  assumes "length (flags sp) = size_f sp" "counted sp"
  shows "getElements sp =
           Inr (map (\<lambda>j. Some (data sp ! j)) (filter (\<lambda>j. flags sp ! j = 1) [0..<size_f sp])) \<and>
         length (filter (\<lambda>j. flags sp ! j = 1) [0..<size_f sp]) = count sp"
proof -
  have n: "length (filter (\<lambda>j. flags sp ! j = 1) [0..<size_f sp]) = count sp"
    using assms occupied_upt [of "flags sp"] by (simp add: counted_def)
  from getElements_for_fill [of 0 sp "[]" 0 "count sp"] n
  show ?thesis by (simp add: getElements_def)
qed

lemma getElements_str_for_fill:
  "i \<le> size_f sp \<Longrightarrow> length xs = w \<Longrightarrow>
   length (filter (\<lambda>j. flags sp ! j = 1) [i..<size_f sp]) \<le> r \<Longrightarrow>
   \<forall>j<size_f sp. flags sp ! j = 1 \<longrightarrow> allocated h0 (data sp ! j) \<Longrightarrow>
   getElements_str_for (h0 @ ys) sp i w (xs @ replicate r None) =
     Inr ((h0 @ ys) @ map (\<lambda>j. deref h0 (data sp ! j)) (filter (\<lambda>j. flags sp ! j = 1) [i..<size_f sp]),
          xs @ map (\<lambda>k. Some (Suc (length (h0 @ ys) + k)))
                 [0..<length (filter (\<lambda>j. flags sp ! j = 1) [i..<size_f sp])] @
          replicate (r - length (filter (\<lambda>j. flags sp ! j = 1) [i..<size_f sp])) None)"
proof (induction "size_f sp - i" arbitrary: i xs w r ys)
  case 0
  then have "i = size_f sp" by simp
  then show ?case by (subst getElements_str_for.simps) simp
next
  case (Suc n)
  then have lt: "i < size_f sp" by simp
  then have up: "[i..<size_f sp] = i # [Suc i..<size_f sp]" by (simp add: upt_conv_Cons)
  let ?occ = "filter (\<lambda>j. flags sp ! j = 1) [Suc i..<size_f sp]"
  show ?case
  proof (cases "flags sp ! i = 1")
    case True
    with Suc.prems(3) up obtain r' where r: "r = Suc r'" "length ?occ \<le> r'"
      by (cases r) auto
    from True lt Suc.prems(4) have al: "allocated h0 (data sp ! i)" by simp
    then have d: "deref (h0 @ ys) (data sp ! i) = deref h0 (data sp ! i)" by (rule deref_append)
    let ?p = "Suc (length (h0 @ ys))"
    let ?v = "deref h0 (data sp ! i)"
    have upd: "(xs @ replicate r None)[w := Some ?p] = (xs @ [Some ?p]) @ replicate r' None"
      using Suc.prems(2) r(1) by (simp add: list_update_append)
    have ih: "getElements_str_for (h0 @ (ys @ [?v])) sp (Suc i) (Suc w)
                ((xs @ [Some ?p]) @ replicate r' None) =
      Inr ((h0 @ (ys @ [?v])) @ map (\<lambda>j. deref h0 (data sp ! j)) ?occ,
           (xs @ [Some ?p]) @ map (\<lambda>k. Some (Suc (length (h0 @ (ys @ [?v])) + k))) [0..<length ?occ] @
           replicate (r' - length ?occ) None)"
      using Suc.hyps(2) lt Suc.prems(2,4) r(2)
      by (intro Suc.hyps(1)) auto
    have shift: "map (\<lambda>k. Some (Suc (length (h0 @ ys) + k))) [0..<Suc (length ?occ)] =
        Some ?p # map (\<lambda>k. Some (Suc (length (h0 @ (ys @ [?v])) + k))) [0..<length ?occ]"
      by (simp add: upt_conv_Cons map_Suc_upt [symmetric] del: upt_Suc)
    show ?thesis
      apply (subst getElements_str_for.simps)
      using lt True Suc.prems(2) r(1) upd ih up d shift
      apply (simp add: alloc_def del: upt_Suc)
      done
  next
    case False
    have ih: "getElements_str_for (h0 @ ys) sp (Suc i) w (xs @ replicate r None) =
      Inr ((h0 @ ys) @ map (\<lambda>j. deref h0 (data sp ! j)) ?occ,
           xs @ map (\<lambda>k. Some (Suc (length (h0 @ ys) + k))) [0..<length ?occ] @
           replicate (r - length ?occ) None)"
      using Suc.hyps(2) lt Suc.prems(2,3,4) False up
      by (intro Suc.hyps(1)) auto
    show ?thesis
      apply (subst getElements_str_for.simps)
      using lt False ih up
      apply simp
      done
  qed
qed

lemma getElements_str_counted:
  assumes wf: "wellformed h sp" and c: "counted sp"
  shows "getElements_str h sp =
           Inr (h @ map (\<lambda>j. deref h (data sp ! j)) (filter (\<lambda>j. flags sp ! j = 1) [0..<size_f sp]),
                map Some (map (\<lambda>k. Suc (length h + k)) [0..<count sp])) \<and>
         length (filter (\<lambda>j. flags sp ! j = 1) [0..<size_f sp]) = count sp"
proof -
  have len: "length (flags sp) = size_f sp" using wf by (simp add: wellformed_iff)
  have n: "length (filter (\<lambda>j. flags sp ! j = 1) [0..<size_f sp]) = count sp"
    using len c occupied_upt [of "flags sp"] by (simp add: counted_def)
  have al: "\<forall>j<size_f sp. flags sp ! j = 1 \<longrightarrow> allocated h (data sp ! j)"
    using wf by (simp add: wellformed_iff)
  from getElements_str_for_fill [of 0 sp "[]" 0 "count sp" h "[]"] n al
  show ?thesis by (simp add: getElements_str_def comp_def)
qed

lemma store_fresh:
  assumes "allocated h q" "length h < p"
  shows "deref (store (h @ ys) p v) q = deref h q"
proof -
  from assms have "q - 1 < length h" "q - 1 \<noteq> p - 1" by (auto simp: allocated_def)
  then show ?thesis by (simp add: deref_def store_def nth_append)
qed

text \<open>
  C5, as amended. For every well-formed set whose count is the number of filled slots:
  in the generic table, \<^verbatim>\<open>getElements\<close> returns a new array of exactly count entries,
  the pointers stored in the filled slots, in slot order (the table's own pointers, not
  copies); in the string table, it returns a new array of exactly count entries, each a
  newly allocated block whose content is that of the corresponding filled slot, in slot
  order, and writing through a returned pointer leaves every object that existed before
  the call, the table's stored strings among them, unchanged.
\<close>

theorem getElements_snapshot:
  "(wellformed h sp \<and> counted sp \<longrightarrow>
      getElements sp =
        Inr (map (\<lambda>i. Some (data sp ! i)) (filter (\<lambda>i. flags sp ! i = 1) [0..<size_f sp])) \<and>
      length (filter (\<lambda>i. flags sp ! i = 1) [0..<size_f sp]) = count sp) \<and>
   (wellformed hs st \<and> counted st \<longrightarrow>
      (\<exists>h' ps. getElements_str hs st = Inr (h', map Some ps) \<and> length ps = count st \<and>
         map (deref h') ps =
           map (\<lambda>i. deref hs (data st ! i)) (filter (\<lambda>i. flags st ! i = 1) [0..<size_f st]) \<and>
         distinct ps \<and>
         (\<forall>p\<in>set ps. \<not> allocated hs p \<and> allocated h' p) \<and>
         (\<forall>q. allocated hs q \<longrightarrow> deref h' q = deref hs q) \<and>
         (\<forall>p\<in>set ps. \<forall>v q. allocated hs q \<longrightarrow> deref (store h' p v) q = deref hs q)))"
proof (intro conjI impI)
  assume a: "wellformed h sp \<and> counted sp"
  then have "length (flags sp) = size_f sp" by (simp add: wellformed_iff)
  from getElements_counted [OF this] a
  show "getElements sp =
        Inr (map (\<lambda>i. Some (data sp ! i)) (filter (\<lambda>i. flags sp ! i = 1) [0..<size_f sp]))"
    and "length (filter (\<lambda>i. flags sp ! i = 1) [0..<size_f sp]) = count sp"
    by simp_all
next
  assume a: "wellformed hs st \<and> counted st"
  let ?occ = "filter (\<lambda>i. flags st ! i = 1) [0..<size_f st]"
  let ?new = "map (\<lambda>i. deref hs (data st ! i)) ?occ"
  let ?h' = "hs @ ?new"
  let ?ps = "map (\<lambda>k. Suc (length hs + k)) [0..<count st]"
  from getElements_str_counted [of hs st] a
  have g: "getElements_str hs st = Inr (?h', map Some ?ps)" and n: "length ?occ = count st"
    by simp_all
  have l: "length ?ps = count st" by simp
  have "map (deref ?h') ?ps = map (\<lambda>k. ?new ! k) [0..<length ?new]"
    using n by (simp add: deref_def nth_append)
  then have m: "map (deref ?h') ?ps = ?new" by (simp only: map_nth)
  have d: "distinct ?ps" by (simp add: distinct_map inj_on_def)
  have f: "\<forall>p\<in>set ?ps. \<not> allocated hs p \<and> allocated ?h' p"
    using n by (auto simp: allocated_def)
  have o: "\<forall>q. allocated hs q \<longrightarrow> deref ?h' q = deref hs q"
    by (simp add: deref_append)
  have s: "\<forall>p\<in>set ?ps. \<forall>v q. allocated hs q \<longrightarrow> deref (store ?h' p v) q = deref hs q"
    by (auto intro!: store_fresh)
  from g l m d f o s
  show "\<exists>h' ps. getElements_str hs st = Inr (h', map Some ps) \<and> length ps = count st \<and>
         map (deref h') ps = ?new \<and> distinct ps \<and>
         (\<forall>p\<in>set ps. \<not> allocated hs p \<and> allocated h' p) \<and>
         (\<forall>q. allocated hs q \<longrightarrow> deref h' q = deref hs q) \<and>
         (\<forall>p\<in>set ps. \<forall>v q. allocated hs q \<longrightarrow> deref (store h' p v) q = deref hs q)"
    by blast
qed

lemma replicate_3: "replicate 3 x = [x, x, x]"
  by (simp add: numeral_3_eq_3)

theorem getElements_snapshot_witness:
  "(wellformed heap5 scen5 \<and> counted scen5) \<and> (wellformed [''a''] str1 \<and> counted str1) \<and>
   (getElements scen5 =
      Inr (map (\<lambda>i. Some (data scen5 ! i)) (filter (\<lambda>i. flags scen5 ! i = 1) [0..<size_f scen5])) \<and>
    length (filter (\<lambda>i. flags scen5 ! i = 1) [0..<size_f scen5]) = count scen5) \<and>
   (\<exists>h' ps. getElements_str [''a''] str1 = Inr (h', map Some ps) \<and> length ps = count str1 \<and>
      map (deref h') ps =
        map (\<lambda>i. deref [''a''] (data str1 ! i)) (filter (\<lambda>i. flags str1 ! i = 1) [0..<size_f str1]) \<and>
      distinct ps \<and>
      (\<forall>p\<in>set ps. \<not> allocated [''a''] p \<and> allocated h' p) \<and>
      (\<forall>q. allocated [''a''] q \<longrightarrow> deref h' q = deref [''a''] q) \<and>
      (\<forall>p\<in>set ps. \<forall>v q. allocated [''a''] q \<longrightarrow> deref (store h' p v) q = deref [''a''] q))"
proof -
  have a: "wellformed heap5 scen5 \<and> counted scen5"
    by (simp add: wellformed_def counted_def occupied_def allocated_def scen5_def heap5_def)
  have b: "wellformed [''a''] str1 \<and> counted str1"
    by (simp add: wellformed_def counted_def occupied_def allocated_def str1_def)
  from getElements_snapshot [of heap5 scen5 "[''a'']" str1] a b
  show ?thesis by blast
qed

text \<open>
  C5, counterexample. In the scenario table after add(1), add(5), add(2) the generic
  \<^verbatim>\<open>getElements\<close> returns the addresses 1, 2, 3, which are the pointers stored in slots
  1, 2 and 3. Writing 7 through the first returned pointer changes the element stored in
  slot 1 of the table: find(1), which returned that element before, is absent after.
\<close>

theorem getElements_returns_table_pointers:
  "getElements scen3 = Inr [Some 1, Some 2, Some 3] \<and> data scen3 = [0, 1, 2, 3] \<and>
   deref heap3 (data scen3 ! 1) = 1 \<and>
   deref (store heap3 1 7) (data scen3 ! 1) = 7 \<and>
   findElement heap3 scen3 (Some 1) = Inr 1 \<and>
   findElement (store heap3 1 7) scen3 (Some 1) = Inr NULL"
  by (simp add: getElements_def getElements_for.simps scen3_def heap3_def deref_def store_def
      replicate_3
      cmp_nat_def hash_mod4_def findElement_def findElementIndex_def findElementIndex_walk_def
      findElementIndex_while.simps NULL_def)

section \<open>Calls that only read\<close>

lemma findElement_total:
  "0 < size_f sp \<or> elt = None \<Longrightarrow> \<exists>p. findElement h sp elt = Inr p"
proof (cases elt)
  case None
  then show ?thesis by (simp add: findElement_def)
next
  case (Some e)
  assume "0 < size_f sp \<or> elt = None"
  with Some have pos: "0 < size_f sp" by simp
  from findElementIndex_total [OF pos, of h e] obtain i found where
    "findElementIndex h sp (Some e) = Inr (i, found)" by blast
  with Some show ?thesis by (simp add: findElement_def)
qed

text \<open>
  C10. \<^verbatim>\<open>numElements\<close>, \<^verbatim>\<open>findElement\<close> and \<^verbatim>\<open>getElements\<close> never modify the set: whenever
  such a call returns, with any (possibly null) element argument, the state it leaves
  (count, flags, data and the stored objects) is the state it started in. The calls do
  return: \<^verbatim>\<open>numElements\<close> always, \<^verbatim>\<open>findElement\<close> when the capacity is positive or the
  element is null, \<^verbatim>\<open>getElements\<close> on a well-formed set whose count is the number of
  filled slots.
\<close>

theorem readers_keep_state:
  "(reads c \<and> run strdup (h, sp) c = Inr (r, h', sp') \<longrightarrow> h' = h \<and> sp' = sp) \<and>
   (\<exists>n. run strdup (h, sp) NumElements = Inr (Number n, h, sp)) \<and>
   (0 < size_f sp \<or> elt = None \<longrightarrow>
      (\<exists>p. run strdup (h, sp) (FindElement elt) = Inr (Pointer p, h, sp))) \<and>
   (wellformed h sp \<and> counted sp \<longrightarrow>
      (\<exists>ps. run strdup (h, sp) GetElements = Inr (Pointers ps, h, sp)))"
proof (intro conjI impI)
  assume "reads c \<and> run strdup (h, sp) c = Inr (r, h', sp')"
  then show "h' = h" and "sp' = sp"
    by (cases c; auto simp: run_def split: sum.splits)+
next
  show "\<exists>n. run strdup (h, sp) NumElements = Inr (Number n, h, sp)"
    by (simp add: run_def)
next
  assume "0 < size_f sp \<or> elt = None"
  from findElement_total [OF this, of h] obtain p where "findElement h sp elt = Inr p" by blast
  then show "\<exists>p. run strdup (h, sp) (FindElement elt) = Inr (Pointer p, h, sp)"
    by (simp add: run_def)
next
  assume a: "wellformed h sp \<and> counted sp"
  then have "length (flags sp) = size_f sp" by (simp add: wellformed_iff)
  from getElements_counted [OF this] a
  show "\<exists>ps. run strdup (h, sp) GetElements = Inr (Pointers ps, h, sp)"
    by (simp add: run_def)
qed

theorem readers_keep_state_witness:
  "(reads (FindElement (Some (9::nat))) \<and>
    run copy_nat (heap5, scen5) (FindElement (Some 9)) = Inr (Pointer 4, heap5, scen5)) \<and>
   (0 < size_f scen5 \<or> Some (9::nat) = None) \<and>
   (wellformed heap5 scen5 \<and> counted scen5) \<and>
   (\<exists>n. run copy_nat (heap5, scen5) NumElements = Inr (Number n, heap5, scen5)) \<and>
   (\<exists>p. run copy_nat (heap5, scen5) (FindElement (Some 9)) = Inr (Pointer p, heap5, scen5)) \<and>
   (\<exists>ps. run copy_nat (heap5, scen5) GetElements = Inr (Pointers ps, heap5, scen5))"
proof -
  have a: "reads (FindElement (Some (9::nat))) \<and>
    run copy_nat (heap5, scen5) (FindElement (Some 9)) = Inr (Pointer 4, heap5, scen5)"
    using scen_find9 by (simp add: run_def)
  have b: "0 < size_f scen5 \<or> Some (9::nat) = None" by (simp add: scen5_def)
  have c: "wellformed heap5 scen5 \<and> counted scen5"
    by (simp add: wellformed_def counted_def occupied_def allocated_def scen5_def heap5_def)
  from readers_keep_state [of "FindElement (Some 9)" copy_nat heap5 scen5 "Pointer 4" heap5 scen5 "Some 9"]
    a b c
  show ?thesis by blast
qed

section \<open>The generic table holds no duplicates\<close>

lemma scan_False_cases:
  "probe_scan eq fl sz sl fd = (t, False) \<Longrightarrow>
     (\<forall>x\<in>set sl. \<not> stops eq fl x) \<or>
     (\<exists>m<length sl. sl ! m = t \<and> fl ! t = 0 \<and> (\<forall>j<m. \<not> stops eq fl (sl ! j)))"
proof (induction sl arbitrary: fd)
  case Nil
  then show ?case by simp
next
  case (Cons index rest)
  show ?case
  proof (cases "stops eq fl index")
    case True
    with Cons.prems have "t = index" "fl ! index = 0"
      by (auto simp: stops_def split: if_splits)
    then have "0 < length (index # rest) \<and> (index # rest) ! 0 = t \<and> fl ! t = 0 \<and>
        (\<forall>j<0. \<not> stops eq fl ((index # rest) ! j))" by simp
    then show ?thesis by blast
  next
    case False
    then have "probe_scan eq fl sz rest (if fl ! index = 2 \<and> fd = sz then index else fd) = (t, False)"
      using Cons.prems by (auto simp: stops_def split: if_splits)
    from Cons.IH [OF this] show ?thesis
    proof
      assume "\<forall>x\<in>set rest. \<not> stops eq fl x"
      with False show ?thesis by simp
    next
      assume "\<exists>m<length rest. rest ! m = t \<and> fl ! t = 0 \<and> (\<forall>j<m. \<not> stops eq fl (rest ! j))"
      then obtain m where m: "m < length rest" "rest ! m = t" "fl ! t = 0"
        "\<forall>j<m. \<not> stops eq fl (rest ! j)" by blast
      have "\<forall>j<Suc m. \<not> stops eq fl ((index # rest) ! j)"
      proof (intro allI impI)
        fix j assume "j < Suc m"
        then show "\<not> stops eq fl ((index # rest) ! j)"
          using False m(4) by (cases j) auto
      qed
      with m have "Suc m < length (index # rest) \<and> (index # rest) ! Suc m = t \<and> fl ! t = 0 \<and>
          (\<forall>j<Suc m. \<not> stops eq fl ((index # rest) ! j))" by simp
      then show ?thesis by blast
    qed
  qed
qed

lemma probe_seq_position:
  assumes "0 < sz" "home < sz" "i < sz"
  shows "\<exists>k<sz. probe_seq sz home ! k = i"
proof -
  from probe_seq_set [OF assms(1,2)] assms(3) have "i \<in> set (probe_seq sz home)" by simp
  then show ?thesis by (auto simp: in_set_conv_nth probe_seq_length)
qed

lemma probe_seq_inj:
  assumes "0 < sz" "home < sz" "k < sz" "m < sz" "probe_seq sz home ! k = probe_seq sz home ! m"
  shows "k = m"
  using probe_seq_distinct [OF assms(1,2)] assms(3,4,5)
  by (simp add: nth_eq_iff_index_eq probe_seq_length)

lemma chainedD:
  assumes "chained h sp" "i < size_f sp" "flags sp ! i = 1" "k < size_f sp"
    "probe_seq (size_f sp) (hash sp (deref h (data sp ! i)) mod size_f sp) ! k = i" "j < k"
  shows "flags sp ! (probe_seq (size_f sp) (hash sp (deref h (data sp ! i)) mod size_f sp) ! j) \<noteq> 0"
  using assms unfolding chained_def by blast

text \<open>
  On a table whose stored elements are chained to their home slots, a probe that reports
  not found has met no equal element, and every slot before the returned one is non-empty.
\<close>

lemma not_found_absent:
  assumes pos: "0 < size_f sp" and ch: "chained h sp"
    and hc: "\<forall>x y. compare sp x y = 0 \<longrightarrow> hash sp x = hash sp y"
    and r: "findElementIndex h sp (Some e) = Inr (t, False)"
    and i: "i < size_f sp" "flags sp ! i = 1"
  shows "compare sp (deref h (data sp ! i)) e \<noteq> 0"
proof
  let ?eq = "\<lambda>index. compare sp (deref h (data sp ! index)) e = 0"
  let ?sl = "probe_seq (size_f sp) (hash sp e mod size_f sp)"
  assume eq: "compare sp (deref h (data sp ! i)) e = 0"
  with hc have "hash sp (deref h (data sp ! i)) = hash sp e" by blast
  then have home: "probe_seq (size_f sp) (hash sp (deref h (data sp ! i)) mod size_f sp) = ?sl"
    by simp
  have hlt: "hash sp e mod size_f sp < size_f sp" using pos by simp
  from probe_seq_position [OF pos hlt i(1)] obtain k where k: "k < size_f sp" "?sl ! k = i"
    by blast
  have before: "\<forall>j<k. flags sp ! (?sl ! j) \<noteq> 0"
  proof (intro allI impI)
    fix j assume "j < k"
    from chainedD [OF ch i k(1) _ this] k(2) home show "flags sp ! (?sl ! j) \<noteq> 0"
      by simp
  qed
  have st: "stops ?eq (flags sp) i" using i(2) eq by (simp add: stops_def)
  from r findElementIndex_scan [OF pos, of h e]
  have s: "probe_scan ?eq (flags sp) (size_f sp) ?sl (size_f sp) = (t, False)" by simp
  from scan_False_cases [OF s] show False
  proof
    assume "\<forall>x\<in>set ?sl. \<not> stops ?eq (flags sp) x"
    moreover have "i \<in> set ?sl" using probe_seq_set [OF pos hlt] i(1) by simp
    ultimately show False using st by blast
  next
    assume "\<exists>m<length ?sl. ?sl ! m = t \<and> flags sp ! t = 0 \<and> (\<forall>j<m. \<not> stops ?eq (flags sp) (?sl ! j))"
    then obtain m where m: "m < size_f sp" "?sl ! m = t" "flags sp ! t = 0"
      "\<forall>j<m. \<not> stops ?eq (flags sp) (?sl ! j)" by (auto simp: probe_seq_length)
    consider "k < m" | "k = m" | "m < k" by linarith
    then show False
    proof cases
      case 1
      with m(4) k(2) st show False by auto
    next
      case 2
      with m(2,3) k(2) i(2) show False by simp
    next
      case 3
      with before m(2,3) show False by auto
    qed
  qed
qed

lemma not_found_chain:
  assumes pos: "0 < size_f sp"
    and r: "findElementIndex h sp (Some e) = Inr (t, False)"
    and k: "k < size_f sp" "probe_seq (size_f sp) (hash sp e mod size_f sp) ! k = t" "j < k"
  shows "flags sp ! (probe_seq (size_f sp) (hash sp e mod size_f sp) ! j) \<noteq> 0"
proof -
  let ?eq = "\<lambda>index. compare sp (deref h (data sp ! index)) e = 0"
  let ?sl = "probe_seq (size_f sp) (hash sp e mod size_f sp)"
  have hlt: "hash sp e mod size_f sp < size_f sp" using pos by simp
  from r findElementIndex_scan [OF pos, of h e]
  have s: "probe_scan ?eq (flags sp) (size_f sp) ?sl (size_f sp) = (t, False)" by simp
  from scan_False_cases [OF s] have "\<not> stops ?eq (flags sp) (?sl ! j)"
  proof
    assume "\<forall>x\<in>set ?sl. \<not> stops ?eq (flags sp) x"
    moreover have "?sl ! j \<in> set ?sl" using k by (simp add: probe_seq_length)
    ultimately show ?thesis by blast
  next
    assume "\<exists>m<length ?sl. ?sl ! m = t \<and> flags sp ! t = 0 \<and> (\<forall>j<m. \<not> stops ?eq (flags sp) (?sl ! j))"
    then obtain m where m: "m < size_f sp" "?sl ! m = t"
      "\<forall>j<m. \<not> stops ?eq (flags sp) (?sl ! j)" by (auto simp: probe_seq_length)
    from probe_seq_inj [OF pos hlt k(1) m(1)] k(2) m(2) have "k = m" by simp
    with m(3) k(3) show ?thesis by simp
  qed
  then show ?thesis by (simp add: stops_def)
qed

lemma consistent_copy:
  assumes "consistent strdup cmp hsh"
  shows "cmp (strdup x) x = 0"
proof -
  from assms have "\<forall>x. cmp (strdup x) x = 0" unfolding consistent_def by (elim conjE)
  then show ?thesis by (rule spec)
qed

lemma consistent_sym:
  assumes "consistent strdup cmp hsh" "cmp x y = 0"
  shows "cmp y x = 0"
proof -
  from assms(1) have "\<forall>x y. cmp x y = 0 \<longrightarrow> cmp y x = 0" unfolding consistent_def by (elim conjE)
  with assms(2) show ?thesis by blast
qed

lemma consistent_trans:
  assumes "consistent strdup cmp hsh" "cmp x y = 0" "cmp y z = 0"
  shows "cmp x z = 0"
proof -
  from assms(1) have "\<forall>x y z. cmp x y = 0 \<and> cmp y z = 0 \<longrightarrow> cmp x z = 0"
    unfolding consistent_def by (elim conjE)
  with assms(2,3) show ?thesis by blast
qed

lemma consistent_hash:
  assumes "consistent strdup cmp hsh" "cmp x y = 0"
  shows "hsh x = hsh y"
proof -
  from assms(1) have "\<forall>x y. cmp x y = 0 \<longrightarrow> hsh x = hsh y" unfolding consistent_def by (elim conjE)
  with assms(2) show ?thesis by blast
qed

lemma addElement_Inr_cases:
  assumes wf: "wellformed h sp" and c: "counted sp"
    and a: "addElement strdup h sp elt = Inr (h', sp')"
  obtains (present) e i where "elt = Some e" "count sp < size_f sp"
      "findElementIndex h sp (Some e) = Inr (i, True)" "h' = h" "sp' = sp"
  | (fresh) e t where "elt = Some e" "count sp < size_f sp"
      "findElementIndex h sp (Some e) = Inr (t, False)" "t < size_f sp" "flags sp ! t \<noteq> 1"
      "h' = h @ [strdup e]"
      "sp' = sp\<lparr>data := (data sp)[t := Suc (length h)], flags := (flags sp)[t := 1],
                 count := count sp + 1\<rparr>"
proof -
  from a obtain e where e: "elt = Some e" and room: "count sp < size_f sp"
    by (auto simp: addElement_def split: option.splits if_splits)
  then have pos: "0 < size_f sp" by simp
  from findElementIndex_total [OF pos, of h e] obtain i found where
    r: "findElementIndex h sp (Some e) = Inr (i, found)" by blast
  show thesis
  proof (cases found)
    case True
    with r addElement_present [OF room, of h e i strdup] a e have "h' = h" "sp' = sp" by simp_all
    with True r e room show thesis by (intro present) simp_all
  next
    case False
    with r have r': "findElementIndex h sp (Some e) = Inr (i, False)" by simp
    from findElementIndex_room [OF wf c room r'] have i: "i < size_f sp" "flags sp ! i \<noteq> 1"
      by simp_all
    from addElement_fresh [OF wf c room r', of strdup] a e
    have "h' = h @ [strdup e]"
      "sp' = sp\<lparr>data := (data sp)[i := Suc (length h)], flags := (flags sp)[i := 1],
                 count := count sp + 1\<rparr>"
      by simp_all
    with e room r' i show thesis by (intro fresh) simp_all
  qed
qed

lemma removeElement_Inr_cases:
  assumes wf: "wellformed h sp" and c: "counted sp"
    and a: "removeElement h sp elt = Inr sp'"
  obtains (same) "sp' = sp"
  | (deleted) i where "i < size_f sp" "flags sp ! i = 1"
      "sp' = sp\<lparr>flags := (flags sp)[i := 2], count := count sp - 1\<rparr>"
proof (cases elt)
  case None
  with a have "sp' = sp" by (simp add: removeElement_def)
  then show thesis by (rule same)
next
  case (Some e)
  show thesis
  proof (cases "size_f sp = 0")
    case True
    with a Some show thesis by (simp add: removeElement_def findElementIndex_def)
  next
    case False
    then have pos: "0 < size_f sp" by simp
    from findElementIndex_total [OF pos, of h e] obtain i found where
      r: "findElementIndex h sp (Some e) = Inr (i, found)" by blast
    show thesis
    proof (cases found)
      case True
      with r have r': "findElementIndex h sp (Some e) = Inr (i, True)" by simp
      from removeElement_found [OF wf c pos r'] a Some
      have "sp' = sp\<lparr>flags := (flags sp)[i := 2], count := count sp - 1\<rparr>"
        "i < size_f sp" "flags sp ! i = 1" by simp_all
      then show thesis by (intro deleted) simp_all
    next
      case False
      with r a Some have "sp' = sp" by (simp add: removeElement_def)
      then show thesis by (rule same)
    qed
  qed
qed

lemma fresh_no_duplicates:
  assumes wf: "wellformed h sp" and ch: "chained h sp" and nd: "no_duplicates h sp"
    and cons: "consistent strdup (compare sp) (hash sp)"
    and r: "findElementIndex h sp (Some e) = Inr (t, False)" and t: "t < size_f sp"
  shows "no_duplicates (h @ [strdup e])
           (sp\<lparr>data := (data sp)[t := Suc (length h)], flags := (flags sp)[t := 1], count := n\<rparr>)"
proof -
  let ?h' = "h @ [strdup e]"
  let ?d' = "(data sp)[t := Suc (length h)]"
  let ?fl' = "(flags sp)[t := 1]"
  have pos: "0 < size_f sp" using t by simp
  have len: "length (data sp) = size_f sp" "length (flags sp) = size_f sp"
    using wf by (simp_all add: wellformed_iff)
  have hc: "\<forall>x y. compare sp x y = 0 \<longrightarrow> hash sp x = hash sp y"
    using cons unfolding consistent_def by (elim conjE)
  have ve: "compare sp (strdup e) e = 0" using cons by (rule consistent_copy)
  have sym: "\<And>x y. compare sp x y = 0 \<Longrightarrow> compare sp y x = 0"
    using cons by (rule consistent_sym)
  have trans: "\<And>x y z. compare sp x y = 0 \<Longrightarrow> compare sp y z = 0 \<Longrightarrow> compare sp x z = 0"
    using cons by (rule consistent_trans)
  have old: "\<And>i. i < size_f sp \<Longrightarrow> i \<noteq> t \<Longrightarrow> ?fl' ! i = 1 \<Longrightarrow>
      flags sp ! i = 1 \<and> deref ?h' (?d' ! i) = deref h (data sp ! i)"
  proof -
    fix i assume i: "i < size_f sp" "i \<noteq> t" "?fl' ! i = 1"
    then have f: "flags sp ! i = 1" by simp
    then have "allocated h (data sp ! i)" using wf i(1) by (simp add: wellformed_iff)
    then have "deref ?h' (data sp ! i) = deref h (data sp ! i)" by (rule deref_append)
    with f i(2) show "flags sp ! i = 1 \<and> deref ?h' (?d' ! i) = deref h (data sp ! i)" by simp
  qed
  have new: "deref ?h' (?d' ! t) = strdup e" using t len by (simp add: deref_new)
  have absent: "\<And>i. i < size_f sp \<Longrightarrow> flags sp ! i = 1 \<Longrightarrow>
      compare sp (deref h (data sp ! i)) e \<noteq> 0"
    by (rule not_found_absent [OF pos ch hc r])
  have "\<And>i j. i < size_f sp \<Longrightarrow> j < size_f sp \<Longrightarrow> i \<noteq> j \<Longrightarrow> ?fl' ! i = 1 \<Longrightarrow> ?fl' ! j = 1 \<Longrightarrow>
      compare sp (deref ?h' (?d' ! i)) (deref ?h' (?d' ! j)) \<noteq> 0"
  proof -
    fix i j assume ij: "i < size_f sp" "j < size_f sp" "i \<noteq> j" "?fl' ! i = 1" "?fl' ! j = 1"
    show "compare sp (deref ?h' (?d' ! i)) (deref ?h' (?d' ! j)) \<noteq> 0"
    proof (cases "i = t")
      case True
      with ij have j: "j \<noteq> t" by simp
      from old [OF ij(2) j ij(5)] have oj: "flags sp ! j = 1"
        "deref ?h' (?d' ! j) = deref h (data sp ! j)" by simp_all
      show ?thesis
      proof
        assume "compare sp (deref ?h' (?d' ! i)) (deref ?h' (?d' ! j)) = 0"
        with True new oj(2) have "compare sp (strdup e) (deref h (data sp ! j)) = 0" by simp
        then have "compare sp (deref h (data sp ! j)) (strdup e) = 0" by (rule sym)
        from trans [OF this ve] absent [OF ij(2) oj(1)] show False by simp
      qed
    next
      case False
      from old [OF ij(1) False ij(4)] have oi: "flags sp ! i = 1"
        "deref ?h' (?d' ! i) = deref h (data sp ! i)" by simp_all
      show ?thesis
      proof (cases "j = t")
        case True
        show ?thesis
        proof
          assume "compare sp (deref ?h' (?d' ! i)) (deref ?h' (?d' ! j)) = 0"
          with True new oi(2) have "compare sp (deref h (data sp ! i)) (strdup e) = 0" by simp
          from trans [OF this ve] absent [OF ij(1) oi(1)] show False by simp
        qed
      next
        case jt: False
        from old [OF ij(2) jt ij(5)] have oj: "flags sp ! j = 1"
          "deref ?h' (?d' ! j) = deref h (data sp ! j)" by simp_all
        from nd ij(1,2,3) oi(1) oj(1)
        have "compare sp (deref h (data sp ! i)) (deref h (data sp ! j)) \<noteq> 0"
          unfolding no_duplicates_def by blast
        with oi(2) oj(2) show ?thesis by simp
      qed
    qed
  qed
  then show ?thesis by (simp add: no_duplicates_def)
qed

lemma fresh_chained:
  assumes wf: "wellformed h sp" and ch: "chained h sp"
    and cons: "consistent strdup (compare sp) (hash sp)"
    and r: "findElementIndex h sp (Some e) = Inr (t, False)" and t: "t < size_f sp"
  shows "chained (h @ [strdup e])
           (sp\<lparr>data := (data sp)[t := Suc (length h)], flags := (flags sp)[t := 1], count := n\<rparr>)"
proof -
  let ?h' = "h @ [strdup e]"
  let ?d' = "(data sp)[t := Suc (length h)]"
  let ?fl' = "(flags sp)[t := 1]"
  have pos: "0 < size_f sp" using t by simp
  have len: "length (data sp) = size_f sp" "length (flags sp) = size_f sp"
    using wf by (simp_all add: wellformed_iff)
  have "compare sp (strdup e) e = 0" using cons by (rule consistent_copy)
  with cons have hv: "hash sp (strdup e) = hash sp e" by (rule consistent_hash)
  have keep: "\<And>x. flags sp ! x \<noteq> 0 \<Longrightarrow> ?fl' ! x \<noteq> 0"
    using t len by (simp add: nth_list_update)
  have "\<And>i k j. i < size_f sp \<Longrightarrow> ?fl' ! i = 1 \<Longrightarrow> k < size_f sp \<Longrightarrow>
      probe_seq (size_f sp) (hash sp (deref ?h' (?d' ! i)) mod size_f sp) ! k = i \<Longrightarrow> j < k \<Longrightarrow>
      ?fl' ! (probe_seq (size_f sp) (hash sp (deref ?h' (?d' ! i)) mod size_f sp) ! j) \<noteq> 0"
  proof -
    fix i k j
    assume i: "i < size_f sp" "?fl' ! i = 1" and k: "k < size_f sp"
      "probe_seq (size_f sp) (hash sp (deref ?h' (?d' ! i)) mod size_f sp) ! k = i" "j < k"
    show "?fl' ! (probe_seq (size_f sp) (hash sp (deref ?h' (?d' ! i)) mod size_f sp) ! j) \<noteq> 0"
    proof (cases "i = t")
      case True
      then have el: "deref ?h' (?d' ! i) = strdup e" using t len by (simp add: deref_new)
      with k(2) True hv have "probe_seq (size_f sp) (hash sp e mod size_f sp) ! k = t" by simp
      from not_found_chain [OF pos r k(1) this k(3)] el hv keep show ?thesis by simp
    next
      case False
      with i have f: "flags sp ! i = 1" by simp
      then have "allocated h (data sp ! i)" using wf i(1) by (simp add: wellformed_iff)
      then have "deref ?h' (data sp ! i) = deref h (data sp ! i)" by (rule deref_append)
      with False have el: "deref ?h' (?d' ! i) = deref h (data sp ! i)" by simp
      with k(2) have "probe_seq (size_f sp) (hash sp (deref h (data sp ! i)) mod size_f sp) ! k = i"
        by simp
      from chainedD [OF ch i(1) f k(1) this k(3)] el keep show ?thesis by simp
    qed
  qed
  then show ?thesis unfolding chained_def by simp
qed

lemma deleted_invariants:
  assumes wf: "wellformed h sp" and ch: "chained h sp" and nd: "no_duplicates h sp"
    and i: "i < size_f sp"
  shows "chained h (sp\<lparr>flags := (flags sp)[i := 2], count := n\<rparr>) \<and>
         no_duplicates h (sp\<lparr>flags := (flags sp)[i := 2], count := n\<rparr>)"
proof -
  let ?fl' = "(flags sp)[i := 2]"
  have len: "length (flags sp) = size_f sp" using wf by (simp add: wellformed_iff)
  have occ: "\<And>x. x < size_f sp \<Longrightarrow> ?fl' ! x = 1 \<Longrightarrow> flags sp ! x = 1"
  proof -
    fix x assume "x < size_f sp" "?fl' ! x = 1"
    then show "flags sp ! x = 1" using len i by (cases "x = i") simp_all
  qed
  have keep: "\<And>x. flags sp ! x \<noteq> 0 \<Longrightarrow> ?fl' ! x \<noteq> 0"
    using i len by (simp add: nth_list_update)
  have "no_duplicates h (sp\<lparr>flags := ?fl', count := n\<rparr>)"
    using nd occ unfolding no_duplicates_def by simp
  moreover have "chained h (sp\<lparr>flags := ?fl', count := n\<rparr>)"
    unfolding chained_def
  proof (intro allI impI)
    fix x k j
    assume "x < size_f (sp\<lparr>flags := ?fl', count := n\<rparr>)"
      "flags (sp\<lparr>flags := ?fl', count := n\<rparr>) ! x = 1"
      "k < size_f (sp\<lparr>flags := ?fl', count := n\<rparr>)"
      "probe_seq (size_f (sp\<lparr>flags := ?fl', count := n\<rparr>))
         (hash (sp\<lparr>flags := ?fl', count := n\<rparr>)
            (deref h (data (sp\<lparr>flags := ?fl', count := n\<rparr>) ! x)) mod
          size_f (sp\<lparr>flags := ?fl', count := n\<rparr>)) ! k = x"
      "j < k"
    then have a: "x < size_f sp" "?fl' ! x = 1" "k < size_f sp"
      "probe_seq (size_f sp) (hash sp (deref h (data sp ! x)) mod size_f sp) ! k = x" "j < k"
      by simp_all
    from chainedD [OF ch a(1) occ [OF a(1,2)] a(3,4,5)] keep
    show "flags (sp\<lparr>flags := ?fl', count := n\<rparr>) !
            (probe_seq (size_f (sp\<lparr>flags := ?fl', count := n\<rparr>))
               (hash (sp\<lparr>flags := ?fl', count := n\<rparr>)
                  (deref h (data (sp\<lparr>flags := ?fl', count := n\<rparr>) ! x)) mod
                size_f (sp\<lparr>flags := ?fl', count := n\<rparr>)) ! j) \<noteq> 0"
      by simp
  qed
  ultimately show ?thesis by simp
qed

lemma grown_invariants:
  assumes wf: "wellformed h sp" and c: "counted sp" and ch: "chained h sp"
    and nd: "no_duplicates h sp"
  shows "wellformed (h @ ys) sp \<and> chained (h @ ys) sp \<and> no_duplicates (h @ ys) sp"
proof -
  have el: "\<And>i. i < size_f sp \<Longrightarrow> flags sp ! i = 1 \<Longrightarrow>
      deref (h @ ys) (data sp ! i) = deref h (data sp ! i)"
    using wf by (simp add: wellformed_iff deref_append)
  have "wellformed (h @ ys) sp"
    using wf by (auto simp: wellformed_iff allocated_append)
  moreover have "no_duplicates (h @ ys) sp"
    using nd el unfolding no_duplicates_def by simp
  moreover have "chained (h @ ys) sp"
    using ch el unfolding chained_def by simp
  ultimately show ?thesis by simp
qed

lemma created_invariants:
  assumes "createSet maxElts cmp hsh = Inr sp" "maxElts < 2 ^ 31"
  shows "wellformed h sp \<and> counted sp \<and> chained h sp \<and> no_duplicates h sp \<and>
         compare sp = cmp \<and> hash sp = hsh"
proof -
  from assms(1) have nn: "0 \<le> maxElts" by (simp add: createSet_def split: if_splits)
  from createSet_valid [OF nn assms(2), of cmp hsh h] assms(1)
  have v: "wellformed h sp" "counted sp" "size_f sp = nat maxElts"
    "flags sp = replicate (nat maxElts) 0" by auto
  from v(3,4) have e: "\<forall>i<size_f sp. flags sp ! i \<noteq> 1" by simp
  then have "chained h sp" "no_duplicates h sp"
    by (simp_all add: chained_def no_duplicates_def)
  moreover from assms(1) nn have "compare sp = cmp" "hash sp = hsh"
    by (auto simp: createSet_def)
  ultimately show ?thesis using v by simp
qed

text \<open>
  Every reachable state of the generic table of part_000 is well formed, its count is
  the number of filled slots, and no two filled slots hold equal elements.
\<close>

lemma reachable_invariants:
  assumes cons: "consistent strdup cmp hsh"
  shows "reachable strdup cmp hsh (h, sp) \<Longrightarrow>
     wellformed h sp \<and> counted sp \<and> chained h sp \<and> no_duplicates h sp \<and>
     compare sp = cmp \<and> hash sp = hsh"
proof (induction "(h, sp)" arbitrary: h sp rule: reachable.induct)
  case (created maxElts sp h)
  then show ?case by (intro created_invariants)
next
  case (added h sp elt h' sp')
  then have inv: "wellformed h sp" "counted sp" "chained h sp" "no_duplicates h sp"
    "compare sp = cmp" "hash sp = hsh" by simp_all
  from cons inv(5,6) have cons': "consistent strdup (compare sp) (hash sp)" by simp
  from inv(1,2) added.hyps(3) show ?case
  proof (cases rule: addElement_Inr_cases)
    case (present e i)
    with inv show ?thesis by simp
  next
    case (fresh e t)
    note f = fresh
    from fresh_wellformed [OF inv(1) f(4), of "strdup e" "count sp + 1"]
      fresh_counted [OF inv(1,2) f(4,5), of "(data sp)[t := Suc (length h)]"]
      fresh_chained [OF inv(1,3) cons' f(3,4), of "count sp + 1"]
      fresh_no_duplicates [OF inv(1,3,4) cons' f(3,4), of "count sp + 1"]
      f(6,7) inv(5,6)
    show ?thesis by simp
  qed
next
  case (removed h sp elt sp')
  then have inv: "wellformed h sp" "counted sp" "chained h sp" "no_duplicates h sp"
    "compare sp = cmp" "hash sp = hsh" by simp_all
  from inv(1,2) removed.hyps(3) show ?case
  proof (cases rule: removeElement_Inr_cases)
    case same
    with inv show ?thesis by simp
  next
    case (deleted i)
    from removed_valid [OF inv(1,2) deleted(1,2)]
      deleted_invariants [OF inv(1,3,4) deleted(1), of "count sp - 1"] deleted(3) inv(5,6)
    show ?thesis by simp
  qed
next
  case (grown h sp ys)
  then have inv: "wellformed h sp" "counted sp" "chained h sp" "no_duplicates h sp"
    "compare sp = cmp" "hash sp = hsh" by simp_all
  from grown_invariants [OF inv(1,2,3,4), of ys] inv(2,5,6) show ?case by simp
qed

text \<open>
  In the generic table of part_000, adding an element again is a no-op: after add(e)
  has returned, a further add(e) with room left returns the state unchanged.
\<close>

lemma add_again_noop:
  assumes cons: "consistent strdup cmp hsh" and re: "reachable strdup cmp hsh (h, sp)"
    and a: "addElement strdup h sp (Some e) = Inr (h', sp')"
    and room': "count sp' < size_f sp'"
  shows "addElement strdup h' sp' (Some e) = Inr (h', sp')"
proof -
  from reachable_invariants [OF cons re]
  have inv: "wellformed h sp" "counted sp" "compare sp = cmp" by simp_all
  from inv(1,2) a show ?thesis
  proof (cases rule: addElement_Inr_cases)
    case (present e' i)
    with a show ?thesis by simp
  next
    case (fresh e' t)
    then have e: "e' = e" by simp
    have pos: "0 < size_f sp" using fresh(4) by simp
    have ve: "compare sp (strdup e) e = 0"
      using consistent_copy [OF cons] inv(3) by simp
    have r: "findElementIndex h sp (Some e) = Inr (t, False)" using fresh(3) e by simp
    from fresh_found [OF inv(1) pos r fresh(4) ve] fresh(6,7) e
    have "findElementIndex h' sp' (Some e) = Inr (t, True)" by simp
    from addElement_present [OF room' this] show ?thesis .
  qed
qed

text \<open>An element that a filled slot holds an equal of is found, and adding it is a no-op.\<close>

lemma add_present_noop:
  assumes cons: "consistent strdup cmp hsh" and re: "reachable strdup cmp hsh (h, sp)"
    and i: "i < size_f sp" "flags sp ! i = 1" "compare sp (deref h (data sp ! i)) e = 0"
    and room: "count sp < size_f sp"
  shows "addElement strdup h sp (Some e) = Inr (h, sp)"
proof -
  from reachable_invariants [OF cons re]
  have inv: "chained h sp" "compare sp = cmp" "hash sp = hsh" by simp_all
  have pos: "0 < size_f sp" using i(1) by simp
  have hc: "\<forall>x y. compare sp x y = 0 \<longrightarrow> hash sp x = hash sp y"
    unfolding inv(2,3) using cons unfolding consistent_def by (elim conjE)
  from findElementIndex_total [OF pos, of h e] obtain t found where
    r: "findElementIndex h sp (Some e) = Inr (t, found)" by blast
  have found
  proof (rule ccontr)
    assume "\<not> found"
    with r have "findElementIndex h sp (Some e) = Inr (t, False)" by simp
    from not_found_absent [OF pos inv(1) hc this i(1,2)] i(3) show False by simp
  qed
  with r have "findElementIndex h sp (Some e) = Inr (t, True)" by simp
  from addElement_present [OF room this] show ?thesis .
qed

lemma reachable_no_duplicates:
  assumes "consistent strdup cmp hsh" "reachable strdup cmp hsh (h, sp)"
    "i < size_f sp" "j < size_f sp" "i \<noteq> j" "flags sp ! i = 1" "flags sp ! j = 1"
  shows "compare sp (deref h (data sp ! i)) (deref h (data sp ! j)) \<noteq> 0"
proof -
  from reachable_invariants [OF assms(1,2)] have "no_duplicates h sp" by simp
  with assms(3-7) show ?thesis unfolding no_duplicates_def by blast
qed

lemma scenario_consistent: "consistent copy_nat cmp_nat hash_mod4"
  unfolding consistent_def cmp_nat_def hash_mod4_def copy_nat_def
  by (intro conjI allI impI) (simp_all split: if_splits)

section \<open>The walk of the probes of part_000\<close>

lemma probe_seq_step:
  assumes "Suc k < sz"
  shows "probe_seq sz home ! Suc k = (probe_seq sz home ! k + 1) mod sz"
proof -
  from assms have "k < sz" by simp
  with assms show ?thesis by (simp add: probe_seq_nth mod_Suc_eq)
qed

text \<open>
  For the string table and the generic table of part_000, with capacity > 0 and a
  non-null element: the probe is the loop body run over the slots \<open>home\<close>,
  \<open>(home + 1) mod size\<close>, ... in this order, where \<open>home = hash mod size\<close>; the sequence has
  \<open>size\<close> entries, each the successor modulo \<open>size\<close> of the one before, and no slot occurs
  twice.
\<close>

lemma part000_probe_walk:
  assumes "0 < size_f sp" and "0 < size_f st"
  shows "findElementIndex h sp (Some e) =
           Inr (probe_scan (\<lambda>index. compare sp (deref h (data sp ! index)) e = 0) (flags sp)
                  (size_f sp) (probe_seq (size_f sp) (hash sp e mod size_f sp)) (size_f sp))"
    and "findElementIndex_str hs st (Some s) =
           Inr (probe_scan (\<lambda>index. strcmp (deref hs (data st ! index)) s = 0) (flags st)
                  (size_f st) (probe_seq (size_f st) (strhash s mod size_f st)) (size_f st))"
    and "hd (probe_seq (size_f sp) (hash sp e mod size_f sp)) = hash sp e mod size_f sp"
    and "length (probe_seq (size_f sp) (hash sp e mod size_f sp)) = size_f sp"
    and "distinct (probe_seq (size_f sp) (hash sp e mod size_f sp))"
    and "\<forall>k. Suc k < size_f sp \<longrightarrow>
           probe_seq (size_f sp) (hash sp e mod size_f sp) ! Suc k =
             (probe_seq (size_f sp) (hash sp e mod size_f sp) ! k + 1) mod size_f sp"
proof -
  have hlt: "hash sp e mod size_f sp < size_f sp" using assms(1) by simp
  show "findElementIndex h sp (Some e) =
           Inr (probe_scan (\<lambda>index. compare sp (deref h (data sp ! index)) e = 0) (flags sp)
                  (size_f sp) (probe_seq (size_f sp) (hash sp e mod size_f sp)) (size_f sp))"
    by (rule findElementIndex_scan [OF assms(1)])
  show "findElementIndex_str hs st (Some s) =
           Inr (probe_scan (\<lambda>index. strcmp (deref hs (data st ! index)) s = 0) (flags st)
                  (size_f st) (probe_seq (size_f st) (strhash s mod size_f st)) (size_f st))"
    by (rule findElementIndex_str_scan [OF assms(2)])
  show "hd (probe_seq (size_f sp) (hash sp e mod size_f sp)) = hash sp e mod size_f sp"
    by (rule probe_seq_hd [OF assms(1) hlt])
  show "length (probe_seq (size_f sp) (hash sp e mod size_f sp)) = size_f sp"
    by (rule probe_seq_length)
  show "distinct (probe_seq (size_f sp) (hash sp e mod size_f sp))"
    by (rule probe_seq_distinct [OF assms(1) hlt])
  show "\<forall>k. Suc k < size_f sp \<longrightarrow>
           probe_seq (size_f sp) (hash sp e mod size_f sp) ! Suc k =
             (probe_seq (size_f sp) (hash sp e mod size_f sp) ! k + 1) mod size_f sp"
    by (simp add: probe_seq_step)
qed

section \<open>The slots inspected are a prefix of the probe sequence\<close>



lemma while_nowrap_visits_scan:
  "findElementIndex_while_nowrap_visits eq fl sz index = scan_visits eq fl [index..<sz]"
proof (induction eq fl sz index rule: findElementIndex_while_nowrap_visits.induct)
  case (1 eq fl sz index)
  show ?case
  proof (cases "index < sz")
    case True
    then have up: "[index..<sz] = index # [Suc index..<sz]" by (simp add: upt_conv_Cons)
    show ?thesis
      apply (subst findElementIndex_while_nowrap_visits.simps)
      apply (simp only: up scan_visits.simps)
      using True 1 apply simp
      done
  next
    case False
    then show ?thesis by (subst findElementIndex_while_nowrap_visits.simps) simp
  qed
qed




section \<open>In src/generic/table.c every flag stays 0\<close>










section \<open>The copy stored by the generic addElement\<close>

lemma strdup_unsigned_small: "0 < x \<Longrightarrow> x < 256 \<Longrightarrow> strdup_unsigned x = x"
  by (simp add: strdup_unsigned_def)

text \<open>
  C7, the failing input. The generic table of capacity 4 with \<^verbatim>\<open>unsigned\<close> elements (the
  comparison returns 0 for equal values, the hash is the value modulo 4), empty, and the
  element 256, whose lowest byte is zero. \<^verbatim>\<open>addElement\<close> stores \<^verbatim>\<open>strdup(elt)\<close>, a block that
  holds only the terminator and reads as 0. \<^verbatim>\<open>findElement\<close> with 256 then compares the
  stored 0 with 256 in the home slot 0, goes on to the empty slot 1 and returns \<^verbatim>\<open>NULL\<close>.
\<close>

theorem add_truncated_copy_not_found:
  "createSet 4 cmp_nat hash_mod4 = Inr scen0 \<and> count scen0 < size_f scen0 \<and>
   findElement [] scen0 (Some 256) = Inr NULL \<and>
   strdup_unsigned 256 = 0 \<and>
   addElement strdup_unsigned [] scen0 (Some 256) = Inr ([0], trunc1) \<and>
   findElementIndex [0] trunc1 (Some 256) = Inr (1, False) \<and>
   findElement [0] trunc1 (Some 256) = Inr NULL"
proof -
  have "findElement [] scen0 (Some 256) = Inr NULL"
    by (simp add: scen0_def cmp_nat_def hash_mod4_def eval_defs)
  moreover have "strdup_unsigned 256 = 0" by (simp add: strdup_unsigned_def)
  moreover have "addElement strdup_unsigned [] scen0 (Some 256) = Inr ([0], trunc1)"
    by (simp add: scen0_def trunc1_def cmp_nat_def hash_mod4_def strdup_unsigned_def eval_defs)
  moreover have "findElementIndex [0] trunc1 (Some 256) = Inr (1, False)"
    by (simp add: trunc1_def cmp_nat_def hash_mod4_def eval_defs)
  moreover have "findElement [0] trunc1 (Some 256) = Inr NULL"
    by (simp add: trunc1_def cmp_nat_def hash_mod4_def eval_defs)
  moreover have "count scen0 < size_f scen0" by (simp add: scen0_def)
  ultimately show ?thesis using scen_create by simp
qed

lemma strhash_high_byte: "strhash [CHR 0xE9] = 4294967273"
  by (simp add: strhash_def)

end
